theory Spec2Isabelle
  imports Main "HOL-Library.Monad_Syntax"
begin

section \<open>The object model probed by \<^verbatim>\<open>cntk/graph.py\<close>\<close>

text \<open>
  The module walks an object graph that it did not build. It never tests the class of a
  node: it reads an attribute and lets the failing read decide the kind of the node. A
  node is therefore a reference (a number) into a store of objects, and an object is the
  record of the attributes the module reads, each one optional: \<open>None\<close> is the read
  that raises. Two references are the same node exactly when they are equal, which is
  what membership in the Python set \<^verbatim>\<open>visited\<close> tests.
\<close>

type_synonym node = nat

text \<open>The exceptions that occur. \<open>WriteError\<close> stands for whatever the rendering
  library or the file system raises when a file cannot be written.\<close>

datatype exn = AttributeError | ValueError | ImportError | IndexError | WriteError

record obj =
  block_root :: "node option"
  block_arguments_mapping :: "(node \<times> node) list option"
  root_function :: "node option"
  inputs :: "node list option"
  outputs :: "node list option"
  is_output :: "bool option"
  owner :: "node option"
  name :: "string option"
  op_name :: "string option"
  uid :: "string option"
  shape :: "string option"

type_synonym graph = "node \<Rightarrow> obj"

text \<open>An object on which every probed attribute is missing.\<close>

definition bare :: obj where
  "bare = \<lparr>block_root = None, block_arguments_mapping = None, root_function = None,
     inputs = None, outputs = None, is_output = None, owner = None, name = None,
     op_name = None, uid = None, shape = None\<rparr>"

section \<open>\<^verbatim>\<open>depth_first_search\<close>\<close>

text \<open>
  The state of the loop of lines 22 to 64. The Python list \<^verbatim>\<open>stack\<close> is popped at its
  end; here the head of the list is the top, so \<^verbatim>\<open>stack.extend(xs)\<close> is
  \<open>rev xs @ stack\<close> and \<^verbatim>\<open>stack.append(x)\<close> is \<open>x # stack\<close>. An entry is
  (node, distance, block depth).
\<close>

record dfs_state =
  stack :: "(node \<times> nat \<times> nat) list"
  accum :: "(node \<times> nat) list"
  visited :: "node set"

type_synonym visitor = "node \<Rightarrow> exn + bool"

text \<open>Line 30: \<^verbatim>\<open>max_depth is None or depth < max_depth\<close>.\<close>

definition may_expand :: "int option \<Rightarrow> nat \<Rightarrow> bool" where
  "may_expand max_depth depth =
     (case max_depth of None \<Rightarrow> True | Some k \<Rightarrow> int depth < k)"

text \<open>Lines 33 and 35: both reads must succeed for the block branch to start.\<close>

definition block_probe :: "graph \<Rightarrow> node \<Rightarrow> (node \<times> (node \<times> node) list) option" where
  "block_probe g n =
     (case block_root (g n) of
        None \<Rightarrow> None
      | Some composite \<Rightarrow>
          (case block_arguments_mapping (g n) of
             None \<Rightarrow> None
           | Some mapping \<Rightarrow> Some (composite, mapping)))"

text \<open>Line 50: \<^verbatim>\<open>node.root_function.inputs\<close>, two reads, either of which may raise.\<close>

definition function_inputs :: "graph \<Rightarrow> node \<Rightarrow> node list option" where
  "function_inputs g n =
     (case root_function (g n) of None \<Rightarrow> None | Some r \<Rightarrow> inputs (g r))"

text \<open>Lines 61 to 64: the visitor decides, then the node is marked. A visitor that
  raises here ends the search with its exception.\<close>

definition accept :: "visitor \<Rightarrow> node \<Rightarrow> nat \<Rightarrow> dfs_state \<Rightarrow> exn + dfs_state" where
  "accept vis n distance s =
     (case vis n of
        Inl e \<Rightarrow> Inl e
      | Inr b \<Rightarrow>
          Inr (s\<lparr>accum := (if b then accum s @ [(n, distance)] else accum s),
                 visited := insert n (visited s)\<rparr>))"

text \<open>Lines 48 to 64, entered when the block branch was not taken or was abandoned.\<close>

definition plain_node :: "graph \<Rightarrow> visitor \<Rightarrow> node \<Rightarrow> nat \<Rightarrow> nat \<Rightarrow> dfs_state \<Rightarrow> exn + dfs_state" where
  "plain_node g vis n distance depth s =
     (case function_inputs g n of
        Some ins \<Rightarrow>
          accept vis n distance
            (s\<lparr>stack := rev (map (\<lambda>i. (i, distance + 1, depth)) ins) @ stack s\<rparr>)
      | None \<Rightarrow>
          (case is_output (g n) of
             Some True \<Rightarrow>
               (case owner (g n) of
                  Some ow \<Rightarrow>
                    Inr (s\<lparr>stack := (ow, distance + 1, depth) # stack s,
                           visited := insert n (visited s)\<rparr>)
                | None \<Rightarrow> accept vis n distance s)
           | _ \<Rightarrow> accept vis n distance s))"

text \<open>
  One turn of the loop after the pop of line 27. In the block branch the bare
  \<^verbatim>\<open>except\<close> of line 46 also catches an exception of the visitor at line 42; the
  pushes and marks of lines 37 to 41 have happened by then and stay.
\<close>

definition dfs_body :: "graph \<Rightarrow> visitor \<Rightarrow> int option \<Rightarrow> node \<times> nat \<times> nat \<Rightarrow> dfs_state \<Rightarrow> exn + dfs_state" where
  "dfs_body g vis max_depth entry s =
     (case entry of (n, distance, depth) \<Rightarrow>
        if n \<in> visited s then Inr s
        else
          (case (if may_expand max_depth depth then block_probe g n else None) of
             Some (composite, mapping) \<Rightarrow>
               (let s1 = s\<lparr>stack := (composite, distance + 1, depth + 1)
                                     # rev (map (\<lambda>(_, actual_input). (actual_input, distance + 1, depth)) mapping)
                                     @ stack s,
                           visited := insert n (visited s \<union> set (map fst mapping))\<rparr>
                in (case vis n of
                      Inr b \<Rightarrow> Inr (if b then s1\<lparr>accum := accum s1 @ [(n, distance)]\<rparr> else s1)
                    | Inl _ \<Rightarrow> plain_node g vis n distance depth s1))
           | None \<Rightarrow> plain_node g vis n distance depth s))"

partial_function (option) dfs_loop :: "graph \<Rightarrow> visitor \<Rightarrow> int option \<Rightarrow> dfs_state \<Rightarrow> (exn + dfs_state) option" where
  [code]: "dfs_loop g vis max_depth s =
     (case stack s of
        [] \<Rightarrow> Some (Inr s)
      | entry # rest \<Rightarrow>
          (case dfs_body g vis max_depth entry (s\<lparr>stack := rest\<rparr>) of
             Inl e \<Rightarrow> Some (Inl e)
           | Inr s' \<Rightarrow> dfs_loop g vis max_depth s'))"

definition dfs_init :: "node \<Rightarrow> dfs_state" where
  "dfs_init root = \<lparr>stack = [(root, 0, 0)], accum = [], visited = {}\<rparr>"

text \<open>The contents of \<^verbatim>\<open>accum\<close> when the loop ends (line 65).\<close>

definition dfs_accum :: "graph \<Rightarrow> node \<Rightarrow> visitor \<Rightarrow> int option \<Rightarrow> (exn + (node \<times> nat) list) option" where
  "dfs_accum g root vis max_depth =
     (case dfs_loop g vis max_depth (dfs_init root) of
        None \<Rightarrow> None
      | Some (Inl e) \<Rightarrow> Some (Inl e)
      | Some (Inr s) \<Rightarrow> Some (Inr (accum s)))"

text \<open>Lines 66 to 69. Python's \<^verbatim>\<open>list.sort\<close> is stable, as \<open>sort_key\<close> is.\<close>

definition depth_first_search :: "graph \<Rightarrow> node \<Rightarrow> visitor \<Rightarrow> int option \<Rightarrow> bool \<Rightarrow> (exn + node list) option" where
  "depth_first_search g root vis max_depth sort_by_distance =
     (case dfs_accum g root vis max_depth of
        None \<Rightarrow> None
      | Some (Inl e) \<Rightarrow> Some (Inl e)
      | Some (Inr acc) \<Rightarrow>
          Some (Inr (map fst (if sort_by_distance then sort_key snd acc else acc))))"

text \<open>A visitor that is a predicate: it returns a truth value on every node.\<close>

definition predicate :: "(node \<Rightarrow> bool) \<Rightarrow> visitor" where
  "predicate p = (\<lambda>n. Inr (p n))"

section \<open>The name look-ups\<close>

text \<open>
  The argument \<^verbatim>\<open>node_name\<close> is any Python value; \<^verbatim>\<open>find_by_name\<close> tests it with
  \<^verbatim>\<open>isinstance(node_name, str)\<close>. The attribute \<^verbatim>\<open>name\<close> of a node is a string when it
  is there, and a string equals no value of another type.
\<close>

datatype pyval = PyStr string | PyInt int | PyNone

definition is_str :: "pyval \<Rightarrow> bool" where
  "is_str v = (case v of PyStr _ \<Rightarrow> True | _ \<Rightarrow> False)"

text \<open>The visitor \<^verbatim>\<open>lambda x: x.name == node_name\<close>; the read of \<^verbatim>\<open>x.name\<close> may raise.\<close>

definition name_is :: "graph \<Rightarrow> pyval \<Rightarrow> visitor" where
  "name_is g node_name =
     (\<lambda>x. case name (g x) of
             None \<Rightarrow> Inl AttributeError
           | Some nm \<Rightarrow> Inr (PyStr nm = node_name))"

definition find_all_with_name :: "graph \<Rightarrow> node \<Rightarrow> pyval \<Rightarrow> int option \<Rightarrow> (exn + node list) option" where
  "find_all_with_name g node node_name max_depth =
     depth_first_search g node (name_is g node_name) max_depth False"

definition find_by_name :: "graph \<Rightarrow> node \<Rightarrow> pyval \<Rightarrow> int option \<Rightarrow> (exn + node option) option" where
  "find_by_name g node node_name max_depth =
     (if \<not> is_str node_name then Some (Inl ValueError)
      else
        (case depth_first_search g node (name_is g node_name) max_depth False of
           None \<Rightarrow> None
         | Some (Inl e) \<Rightarrow> Some (Inl e)
         | Some (Inr result) \<Rightarrow>
             if length result > 1 then Some (Inl ValueError)
             else (case result of
                     [] \<Rightarrow> Some (Inr None)
                   | first # _ \<Rightarrow> Some (Inr (Some first)))))"

definition try_find_closest_by_name :: "graph \<Rightarrow> node \<Rightarrow> pyval \<Rightarrow> int option \<Rightarrow> (exn + node option) option" where
  "try_find_closest_by_name g node node_name max_depth =
     (if \<not> is_str node_name then Some (Inl ValueError)
      else
        (case depth_first_search g node (name_is g node_name) max_depth True of
           None \<Rightarrow> None
         | Some (Inl e) \<Rightarrow> Some (Inl e)
         | Some (Inr result) \<Rightarrow>
             (case result of
                [] \<Rightarrow> Some (Inr None)
              | first # _ \<Rightarrow> Some (Inr (Some first)))))"

section \<open>\<^verbatim>\<open>output_function_graph\<close>\<close>






















section \<open>Building concrete graphs\<close>

text \<open>A store given by the list of its objects; every other reference is an object
  without any of the attributes.\<close>

definition graph_of :: "(node \<times> obj) list \<Rightarrow> graph" where
  "graph_of xs = (\<lambda>n. case map_of xs n of Some ob \<Rightarrow> ob | None \<Rightarrow> bare)"

text \<open>
  A block: node 0 is a block function applied to the variable 1; its composite has the
  root 2, a function of the placeholder 3, and the mapping sends 3 to 1.
\<close>

definition block_graph :: graph where
  "block_graph = graph_of
     [(0, bare\<lparr>block_root := Some 2, block_arguments_mapping := Some [(3, 1)],
               root_function := Some 0, inputs := Some [1], name := Some ''dense''\<rparr>),
      (1, bare\<lparr>name := Some ''x''\<rparr>),
      (2, bare\<lparr>root_function := Some 2, inputs := Some [3], name := Some ''times''\<rparr>),
      (3, bare\<lparr>name := Some ''placeholder''\<rparr>)]"

section \<open>Reachability, for stating the properties of the search\<close>

text \<open>
  Every reference the search can push when it handles the node \<open>n\<close>, whichever branch
  it takes: the composite root and the actual inputs of a block, the inputs of the root
  function, the owner.
\<close>

definition successors :: "graph \<Rightarrow> node \<Rightarrow> node set" where
  "successors g n =
     (case block_probe g n of
        Some (composite, mapping) \<Rightarrow> insert composite (snd ` set mapping)
      | None \<Rightarrow> {})
     \<union> (case function_inputs g n of Some ins \<Rightarrow> set ins | None \<Rightarrow> {})
     \<union> (case owner (g n) of Some ow \<Rightarrow> {ow} | None \<Rightarrow> {})"

inductive_set reachable :: "graph \<Rightarrow> node \<Rightarrow> node set" for g :: graph and root :: node where
  root: "root \<in> reachable g root"
| step: "a \<in> reachable g root \<Longrightarrow> b \<in> successors g a \<Longrightarrow> b \<in> reachable g root"

text \<open>The nodes of \<^verbatim>\<open>accum\<close> are visited and pairwise different: the invariant
  behind the comment of line 23.\<close>

definition accum_ok :: "dfs_state \<Rightarrow> bool" where
  "accum_ok s \<longleftrightarrow> distinct (map fst (accum s)) \<and> fst ` set (accum s) \<subseteq> visited s"

text \<open>A cycle: the functions 0 and 1 are inputs of each other, and 1 also reads the
  output variable 2 of the function 0.\<close>

definition cycle_graph :: graph where
  "cycle_graph = graph_of
     [(0, bare\<lparr>root_function := Some 0, inputs := Some [1], name := Some ''f''\<rparr>),
      (1, bare\<lparr>root_function := Some 1, inputs := Some [0, 2], name := Some ''h''\<rparr>),
      (2, bare\<lparr>is_output := Some True, owner := Some 0, name := Some ''f''\<rparr>)]"

text \<open>\<open>reach_in g root k n\<close>: the node \<open>n\<close> is at the end of a chain of \<open>k\<close>
  successor steps that starts at the root.\<close>

inductive reach_in :: "graph \<Rightarrow> node \<Rightarrow> nat \<Rightarrow> node \<Rightarrow> bool" for g :: graph and root :: node where
  zero: "reach_in g root 0 root"
| suc: "reach_in g root k a \<Longrightarrow> b \<in> successors g a \<Longrightarrow> reach_in g root (Suc k) b"

text \<open>Every distance on the stack and in \<^verbatim>\<open>accum\<close> is the length of such a chain.\<close>

definition distances_ok :: "graph \<Rightarrow> node \<Rightarrow> dfs_state \<Rightarrow> bool" where
  "distances_ok g root s \<longleftrightarrow>
     (\<forall>e \<in> set (stack s). reach_in g root (fst (snd e)) (fst e))
     \<and> (\<forall>e \<in> set (accum s). reach_in g root (snd e) (fst e))"

text \<open>The distance that \<^verbatim>\<open>accum\<close> holds for a node.\<close>

definition recorded_distance :: "(node \<times> nat) list \<Rightarrow> node \<Rightarrow> nat" where
  "recorded_distance acc n = (case map_of acc n of Some dist \<Rightarrow> dist | None \<Rightarrow> 0)"

text \<open>A fork: the function 0 reads the variable 1 and the function 2, which reads the
  variable 3.\<close>

definition fork_graph :: graph where
  "fork_graph = graph_of
     [(0, bare\<lparr>root_function := Some 0, inputs := Some [1, 2], name := Some ''plus''\<rparr>),
      (1, bare\<lparr>name := Some ''x''\<rparr>),
      (2, bare\<lparr>root_function := Some 2, inputs := Some [3], name := Some ''log''\<rparr>),
      (3, bare\<lparr>name := Some ''x''\<rparr>)]"

text \<open>
  The nodes that the search replaces by their owner (lines 52 to 57): the block branch
  does not start, \<^verbatim>\<open>node.root_function.inputs\<close> cannot be read, \<^verbatim>\<open>is_output\<close> is true
  and there is an owner.
\<close>

definition output_variable :: "graph \<Rightarrow> node \<Rightarrow> bool" where
  "output_variable g n \<longleftrightarrow>
     block_probe g n = None \<and> function_inputs g n = None
     \<and> is_output (g n) = Some True \<and> owner (g n) \<noteq> None"

section \<open>Reading the effects of the export\<close>










text \<open>A sum of a product: \<open>Plus\<close> (0) reads the output 1 of \<open>Times\<close> (3) and the
  parameter 2; \<open>Times\<close> reads the parameter 2 and the input 5; 4 is the output of
  \<open>Plus\<close>.\<close>

definition sum_graph :: graph where
  "sum_graph = graph_of
     [(0, bare\<lparr>root_function := Some 0, inputs := Some [1, 2], outputs := Some [4],
               op_name := Some ''Plus'', uid := Some ''P0''\<rparr>),
      (1, bare\<lparr>is_output := Some True, owner := Some 3, uid := Some ''t'', shape := Some ''(2,)''\<rparr>),
      (2, bare\<lparr>is_output := Some False, uid := Some ''w'', shape := Some ''(2,)''\<rparr>),
      (3, bare\<lparr>root_function := Some 3, inputs := Some [2, 5], outputs := Some [1],
               op_name := Some ''Times'', uid := Some ''T3''\<rparr>),
      (4, bare\<lparr>is_output := Some True, owner := Some 0, uid := Some ''p'', shape := Some ''(2,)''\<rparr>),
      (5, bare\<lparr>is_output := Some False, uid := Some ''x'', shape := Some ''(2,)''\<rparr>)]"

section \<open>The text of the export, in the words of the specification\<close>






section \<open>What the search is bound to find\<close>

text \<open>
  The depth limit in the words of the specification: a block met at block depth \<open>d\<close> is
  within the limit when there is no limit or \<open>d\<close> is below it.
\<close>

definition within_limit :: "int option \<Rightarrow> nat \<Rightarrow> bool" where
  "within_limit max_depth d \<longleftrightarrow> (\<forall>k. max_depth = Some k \<longrightarrow> int d < k)"

text \<open>
  The nodes that follow a node \<open>a\<close> met at block depth \<open>d\<close>, each with its block
  depth. A block within the limit leads to its actual inputs at the same depth and to its
  composite root one level deeper. Any other node leads, at the same depth, to the inputs
  of its root function or, if these cannot be read and it is an output, to its owner.
\<close>

definition plain_children :: "graph \<Rightarrow> node \<Rightarrow> node set" where
  "plain_children g a =
     (case function_inputs g a of
        Some ins \<Rightarrow> set ins
      | None \<Rightarrow>
          (if is_output (g a) = Some True
           then (case owner (g a) of Some ow \<Rightarrow> {ow} | None \<Rightarrow> {})
           else {}))"

definition pushes :: "graph \<Rightarrow> int option \<Rightarrow> node \<Rightarrow> nat \<Rightarrow> (node \<times> nat) set" where
  "pushes g max_depth a d =
     (case (if within_limit max_depth d then block_probe g a else None) of
        Some (composite, mapping) \<Rightarrow> insert (composite, d + 1) ((\<lambda>x. (snd x, d)) ` set mapping)
      | None \<Rightarrow> (\<lambda>b. (b, d)) ` plain_children g a)"

text \<open>The nodes reachable from the root within the depth limit, with the block depths at
  which they are reached.\<close>

inductive_set within :: "graph \<Rightarrow> node \<Rightarrow> int option \<Rightarrow> (node \<times> nat) set"
  for g :: graph and root :: node and max_depth :: "int option" where
  start: "(root, 0) \<in> within g root max_depth"
| follow: "(a, d) \<in> within g root max_depth \<Longrightarrow> e \<in> pushes g max_depth a d
           \<Longrightarrow> e \<in> within g root max_depth"

text \<open>
  The formal inputs of a block are marked as visited when the block is expanded (line
  38); \<open>marked_formals\<close> collects them over the blocks reachable within the limit.
\<close>

definition formals :: "graph \<Rightarrow> node \<Rightarrow> node set" where
  "formals g n =
     (case block_probe g n of Some (composite, mapping) \<Rightarrow> fst ` set mapping | None \<Rightarrow> {})"

definition marked_formals :: "graph \<Rightarrow> node \<Rightarrow> int option \<Rightarrow> node set" where
  "marked_formals g root max_depth =
     {f. \<exists>b d. (b, d) \<in> within g root max_depth \<and> within_limit max_depth d \<and> f \<in> formals g b}"

text \<open>The nodes reachable within the limit along a chain that, after the root, passes
  through no marked formal input.\<close>

inductive_set found_within :: "graph \<Rightarrow> node \<Rightarrow> int option \<Rightarrow> (node \<times> nat) set"
  for g :: graph and root :: node and max_depth :: "int option" where
  start: "(root, 0) \<in> found_within g root max_depth"
| follow: "(a, d) \<in> found_within g root max_depth \<Longrightarrow> e \<in> pushes g max_depth a d
           \<Longrightarrow> fst e \<notin> marked_formals g root max_depth
           \<Longrightarrow> e \<in> found_within g root max_depth"

text \<open>A node met at depth \<open>d\<close> that the search replaces by its owner (lines 52 to 57):
  it is not expanded as a block, the inputs of its root function cannot be read, it is
  an output and has an owner.\<close>

definition taken_for_output :: "graph \<Rightarrow> int option \<Rightarrow> node \<Rightarrow> nat \<Rightarrow> bool" where
  "taken_for_output g max_depth n d \<longleftrightarrow>
     (within_limit max_depth d \<longrightarrow> block_probe g n = None)
     \<and> function_inputs g n = None \<and> is_output (g n) = Some True \<and> owner (g n) \<noteq> None"

text \<open>No block is reached both at a depth within the limit and at a depth beyond it.\<close>

definition same_side :: "graph \<Rightarrow> node \<Rightarrow> int option \<Rightarrow> bool" where
  "same_side g root max_depth \<longleftrightarrow>
     (\<forall>b d d'. (b, d) \<in> within g root max_depth \<and> (b, d') \<in> within g root max_depth
        \<and> block_probe g b \<noteq> None \<longrightarrow> within_limit max_depth d = within_limit max_depth d')"

text \<open>A stack entry without its distance.\<close>

definition place :: "node \<times> nat \<times> nat \<Rightarrow> node \<times> nat" where
  "place e = (fst e, snd (snd e))"

text \<open>
  The invariant of the loop for a predicate \<open>p\<close>. The stack and \<^verbatim>\<open>accum\<close> hold nodes
  reachable within the limit. A visited node that was handled (it is the root or no
  marked formal input) was met at some depth, the nodes that follow it there are visited
  or on the stack, and it is in \<^verbatim>\<open>accum\<close> if the predicate holds and it was not replaced
  by its owner. The root is handled first.
\<close>

definition search_ok :: "graph \<Rightarrow> node \<Rightarrow> int option \<Rightarrow> (node \<Rightarrow> bool) \<Rightarrow> dfs_state \<Rightarrow> bool" where
  "search_ok g root max_depth p s \<longleftrightarrow>
     (\<forall>e \<in> set (stack s). place e \<in> within g root max_depth)
     \<and> (\<forall>e \<in> set (accum s). \<exists>d. (fst e, d) \<in> within g root max_depth)
     \<and> (\<forall>v \<in> visited s. v \<notin> marked_formals g root max_depth \<or> v = root \<longrightarrow>
          (\<exists>d. (v, d) \<in> within g root max_depth
             \<and> fst ` pushes g max_depth v d \<subseteq> visited s \<union> fst ` set (stack s)
             \<and> (p v \<and> \<not> taken_for_output g max_depth v d \<longrightarrow> v \<in> fst ` set (accum s))))
     \<and> (root \<in> visited s \<or> s = dfs_init root)"

text \<open>
  A block used twice: the function 0 reads the blocks 2 and 1; the composite of the
  block 1 has the root 3, a function that reads the block 2; the composite of the block
  2 has the root 4.
\<close>

definition shared_graph :: graph where
  "shared_graph = graph_of
     [(0, bare\<lparr>root_function := Some 0, inputs := Some [2, 1], name := Some ''plus''\<rparr>),
      (1, bare\<lparr>block_root := Some 3, block_arguments_mapping := Some [],
               root_function := Some 1, inputs := Some [], name := Some ''outer''\<rparr>),
      (2, bare\<lparr>block_root := Some 4, block_arguments_mapping := Some [],
               root_function := Some 2, inputs := Some [], name := Some ''inner''\<rparr>),
      (3, bare\<lparr>root_function := Some 3, inputs := Some [2], name := Some ''relu''\<rparr>),
      (4, bare\<lparr>root_function := Some 4, inputs := Some [], name := Some ''constant''\<rparr>)]"

section \<open>The two traversals side by side\<close>




section \<open>Single turns of the search loop\<close>

lemma plain_node_bare:
  "root_function (g n) = None \<Longrightarrow> is_output (g n) = None \<Longrightarrow>
   plain_node g vis n distance depth s = accept vis n distance s"
  by (simp add: plain_node_def function_inputs_def)

lemma plain_node_cong_graph:
  assumes "\<And>m. root_function (g' m) = root_function (g m)"
    and "\<And>m. inputs (g' m) = inputs (g m)"
    and "is_output (g' n) = is_output (g n)" and "owner (g' n) = owner (g n)"
  shows "plain_node g' vis n distance depth s = plain_node g vis n distance depth s"
  using assms
  by (simp add: plain_node_def function_inputs_def cong: option.case_cong bool.case_cong)

lemma dfs_loop_turn:
  assumes "stack s = entry # rest"
    and "dfs_body g vis max_depth entry (s\<lparr>stack := rest\<rparr>) = Inr s'"
  shows "dfs_loop g vis max_depth s = dfs_loop g vis max_depth s'"
  using assms by (subst dfs_loop.simps) simp

text \<open>
  Claim C3. A node with \<^verbatim>\<open>block_root\<close> and \<^verbatim>\<open>block_arguments_mapping\<close> is on top of the
  stack at block depth \<open>d\<close> and has not been visited. If \<^verbatim>\<open>max_depth\<close> is \<^verbatim>\<open>None\<close> or
  \<open>d < max_depth\<close>, the turn does not raise and pushes every actual input of the mapping at
  \<open>distance + 1\<close> and depth \<open>d\<close>, then the composite root at \<open>distance + 1\<close> and
  depth \<open>d + 1\<close>, and marks the formal inputs of the mapping, and the node, as visited. If
  \<^verbatim>\<open>max_depth\<close> is an integer and \<open>d \<ge> max_depth\<close>, the turn is the one taken for the
  same node without its two block attributes, and when \<^verbatim>\<open>root_function.inputs\<close> can be
  read those inputs are pushed at \<open>distance + 1\<close> and the same depth \<open>d\<close>.
\<close>

theorem C3_block_expansion:
  assumes "block_root (g n) = Some composite"
    and "block_arguments_mapping (g n) = Some mapping"
    and "stack s = (n, distance, d) # rest"
    and "n \<notin> visited s"
  shows "(max_depth = None \<or> (\<exists>k. max_depth = Some k \<and> int d < k) \<longrightarrow>
            dfs_body g (predicate p) max_depth (n, distance, d) (s\<lparr>stack := rest\<rparr>) =
            Inr (s\<lparr>stack := (composite, distance + 1, d + 1)
                           # rev (map (\<lambda>(formal, actual). (actual, distance + 1, d)) mapping) @ rest,
                   accum := (if p n then accum s @ [(n, distance)] else accum s),
                   visited := insert n (visited s \<union> fst ` set mapping)\<rparr>)
          \<and> dfs_loop g (predicate p) max_depth s =
            dfs_loop g (predicate p) max_depth
              (s\<lparr>stack := (composite, distance + 1, d + 1)
                           # rev (map (\<lambda>(formal, actual). (actual, distance + 1, d)) mapping) @ rest,
                 accum := (if p n then accum s @ [(n, distance)] else accum s),
                 visited := insert n (visited s \<union> fst ` set mapping)\<rparr>))
       \<and> ((\<exists>k. max_depth = Some k \<and> k \<le> int d) \<longrightarrow>
            dfs_body g vis max_depth (n, distance, d) (s\<lparr>stack := rest\<rparr>) =
            dfs_body (g(n := (g n)\<lparr>block_root := None, block_arguments_mapping := None\<rparr>))
              vis max_depth (n, distance, d) (s\<lparr>stack := rest\<rparr>)
          \<and> (\<forall>ins. function_inputs g n = Some ins \<longrightarrow>
                dfs_body g (predicate p) max_depth (n, distance, d) (s\<lparr>stack := rest\<rparr>) =
                Inr (s\<lparr>stack := rev (map (\<lambda>i. (i, distance + 1, d)) ins) @ rest,
                       accum := (if p n then accum s @ [(n, distance)] else accum s),
                       visited := insert n (visited s)\<rparr>)
              \<and> dfs_loop g (predicate p) max_depth s =
                dfs_loop g (predicate p) max_depth
                  (s\<lparr>stack := rev (map (\<lambda>i. (i, distance + 1, d)) ins) @ rest,
                     accum := (if p n then accum s @ [(n, distance)] else accum s),
                     visited := insert n (visited s)\<rparr>)))"
proof (intro conjI impI allI)
  assume "max_depth = None \<or> (\<exists>k. max_depth = Some k \<and> int d < k)"
  then have ex: "may_expand max_depth d"
    by (auto simp: may_expand_def)
  show turn: "dfs_body g (predicate p) max_depth (n, distance, d) (s\<lparr>stack := rest\<rparr>) =
        Inr (s\<lparr>stack := (composite, distance + 1, d + 1)
                           # rev (map (\<lambda>(formal, actual). (actual, distance + 1, d)) mapping) @ rest,
                 accum := (if p n then accum s @ [(n, distance)] else accum s),
                 visited := insert n (visited s \<union> fst ` set mapping)\<rparr>)"
    using assms(1,2,4) ex
    by (simp add: dfs_body_def block_probe_def predicate_def)
  show "dfs_loop g (predicate p) max_depth s =
            dfs_loop g (predicate p) max_depth
              (s\<lparr>stack := (composite, distance + 1, d + 1)
                           # rev (map (\<lambda>(formal, actual). (actual, distance + 1, d)) mapping) @ rest,
                 accum := (if p n then accum s @ [(n, distance)] else accum s),
                 visited := insert n (visited s \<union> fst ` set mapping)\<rparr>)"
    using assms(3) turn by (rule dfs_loop_turn)
next
  assume "\<exists>k. max_depth = Some k \<and> k \<le> int d"
  then have nex: "\<not> may_expand max_depth d"
    by (auto simp: may_expand_def)
  let ?g' = "g(n := (g n)\<lparr>block_root := None, block_arguments_mapping := None\<rparr>)"
  have "plain_node ?g' vis n distance d (s\<lparr>stack := rest\<rparr>) =
        plain_node g vis n distance d (s\<lparr>stack := rest\<rparr>)"
    by (rule plain_node_cong_graph) simp_all
  then show "dfs_body g vis max_depth (n, distance, d) (s\<lparr>stack := rest\<rparr>) =
        dfs_body ?g' vis max_depth (n, distance, d) (s\<lparr>stack := rest\<rparr>)"
    using nex by (simp add: dfs_body_def)
next
  fix ins
  assume lim: "\<exists>k. max_depth = Some k \<and> k \<le> int d" and ins: "function_inputs g n = Some ins"
  then have nex: "\<not> may_expand max_depth d"
    by (auto simp: may_expand_def)
  show turn: "dfs_body g (predicate p) max_depth (n, distance, d) (s\<lparr>stack := rest\<rparr>) =
        Inr (s\<lparr>stack := rev (map (\<lambda>i. (i, distance + 1, d)) ins) @ rest,
                     accum := (if p n then accum s @ [(n, distance)] else accum s),
                     visited := insert n (visited s)\<rparr>)"
    using nex ins assms(4)
    by (simp add: dfs_body_def plain_node_def accept_def predicate_def)
  show "dfs_loop g (predicate p) max_depth s =
                dfs_loop g (predicate p) max_depth
                  (s\<lparr>stack := rev (map (\<lambda>i. (i, distance + 1, d)) ins) @ rest,
                     accum := (if p n then accum s @ [(n, distance)] else accum s),
                     visited := insert n (visited s)\<rparr>)"
    using assms(3) turn by (rule dfs_loop_turn)
qed

theorem C3_witness:
  "dfs_body block_graph (predicate (\<lambda>_. True)) None (0, 0, 0)
       \<lparr>stack = [], accum = [], visited = {}\<rparr> =
     Inr \<lparr>stack = [(2, 1, 1), (1, 1, 0)], accum = [(0, 0)], visited = {0, 3}\<rparr>
   \<and> dfs_loop block_graph (predicate (\<lambda>_. True)) None (dfs_init 0) =
     dfs_loop block_graph (predicate (\<lambda>_. True)) None
       \<lparr>stack = [(2, 1, 1), (1, 1, 0)], accum = [(0, 0)], visited = {0, 3}\<rparr>
   \<and> dfs_body block_graph (predicate (\<lambda>_. True)) (Some 0) (0, 0, 0)
       \<lparr>stack = [], accum = [], visited = {}\<rparr> =
     Inr \<lparr>stack = [(1, 1, 0)], accum = [(0, 0)], visited = {0}\<rparr>
   \<and> dfs_loop block_graph (predicate (\<lambda>_. True)) (Some 0) (dfs_init 0) =
     dfs_loop block_graph (predicate (\<lambda>_. True)) (Some 0)
       \<lparr>stack = [(1, 1, 0)], accum = [(0, 0)], visited = {0}\<rparr>"
proof -
  have block: "block_root (block_graph 0) = Some 2"
    "block_arguments_mapping (block_graph 0) = Some [(3, 1)]"
    by (simp_all add: block_graph_def graph_of_def bare_def)
  have ins: "function_inputs block_graph 0 = Some [1]"
    by (simp add: function_inputs_def block_graph_def graph_of_def bare_def)
  have top: "stack (dfs_init 0) = (0, 0, 0) # []" "0 \<notin> visited (dfs_init 0)"
    by (simp_all add: dfs_init_def)
  have lim: "\<exists>k. Some 0 = Some k \<and> k \<le> int 0"
    by simp
  from C3_block_expansion [where g = block_graph and n = 0 and composite = 2
      and mapping = "[(3, 1)]" and s = "dfs_init 0" and distance = 0 and d = 0 and rest = "[]"
      and max_depth = None and p = "\<lambda>_. True", OF block top]
  have open_turn: "dfs_body block_graph (predicate (\<lambda>_. True)) None (0, 0, 0)
       \<lparr>stack = [], accum = [], visited = {}\<rparr> =
     Inr \<lparr>stack = [(2, 1, 1), (1, 1, 0)], accum = [(0, 0)], visited = {0, 3}\<rparr>
   \<and> dfs_loop block_graph (predicate (\<lambda>_. True)) None (dfs_init 0) =
     dfs_loop block_graph (predicate (\<lambda>_. True)) None
       \<lparr>stack = [(2, 1, 1), (1, 1, 0)], accum = [(0, 0)], visited = {0, 3}\<rparr>"
    by (simp add: dfs_init_def insert_commute)
  from C3_block_expansion [where g = block_graph and n = 0 and composite = 2
      and mapping = "[(3, 1)]" and s = "dfs_init 0" and distance = 0 and d = 0 and rest = "[]"
      and max_depth = "Some 0" and p = "\<lambda>_. True", OF block top,
      THEN conjunct2, THEN mp, OF lim, THEN conjunct2, THEN spec, THEN mp, OF ins]
  have "dfs_body block_graph (predicate (\<lambda>_. True)) (Some 0) (0, 0, 0)
       \<lparr>stack = [], accum = [], visited = {}\<rparr> =
     Inr \<lparr>stack = [(1, 1, 0)], accum = [(0, 0)], visited = {0}\<rparr>
   \<and> dfs_loop block_graph (predicate (\<lambda>_. True)) (Some 0) (dfs_init 0) =
     dfs_loop block_graph (predicate (\<lambda>_. True)) (Some 0)
       \<lparr>stack = [(1, 1, 0)], accum = [(0, 0)], visited = {0}\<rparr>"
    by (simp add: dfs_init_def)
  with open_turn show ?thesis by simp
qed

text \<open>
  Claim C5. A node on top of the stack, not yet visited, has neither the block
  attributes, nor \<^verbatim>\<open>root_function\<close>, nor \<^verbatim>\<open>is_output\<close>. The turn of the loop is then
  lines 61 to 64 alone: the visitor is applied to the node, and only an exception of
  the visitor itself can leave the loop. With a visitor that is a predicate the turn does
  not raise, pushes nothing, appends the node exactly when the predicate holds and marks
  it as visited.
\<close>

theorem C5_probes_swallowed:
  assumes "block_root (g n) = None \<or> block_arguments_mapping (g n) = None"
    and "root_function (g n) = None"
    and "is_output (g n) = None"
    and "stack s = (n, distance, depth) # rest"
    and "n \<notin> visited s"
  shows "dfs_body g vis max_depth (n, distance, depth) (s\<lparr>stack := rest\<rparr>) =
           accept vis n distance (s\<lparr>stack := rest\<rparr>)
       \<and> dfs_body g (predicate p) max_depth (n, distance, depth) (s\<lparr>stack := rest\<rparr>) =
           Inr (s\<lparr>stack := rest,
                  accum := (if p n then accum s @ [(n, distance)] else accum s),
                  visited := insert n (visited s)\<rparr>)
       \<and> dfs_loop g (predicate p) max_depth s =
           dfs_loop g (predicate p) max_depth
             (s\<lparr>stack := rest,
                accum := (if p n then accum s @ [(n, distance)] else accum s),
                visited := insert n (visited s)\<rparr>)"
proof -
  have probe: "block_probe g n = None"
    using assms(1) by (auto simp: block_probe_def split: option.splits)
  have body: "dfs_body g v max_depth (n, distance, depth) (s\<lparr>stack := rest\<rparr>) =
        accept v n distance (s\<lparr>stack := rest\<rparr>)" for v
    using assms(2,3,5) probe by (simp add: dfs_body_def plain_node_bare)
  have pred: "dfs_body g (predicate p) max_depth (n, distance, depth) (s\<lparr>stack := rest\<rparr>) =
        Inr (s\<lparr>stack := rest,
              accum := (if p n then accum s @ [(n, distance)] else accum s),
              visited := insert n (visited s)\<rparr>)"
    by (simp add: body accept_def predicate_def)
  show ?thesis
    using body pred dfs_loop_turn [OF assms(4) pred] by simp
qed

theorem C5_witness:
  "dfs_body (graph_of []) (predicate (\<lambda>_. True)) None (0, 0, 0) \<lparr>stack = [], accum = [], visited = {}\<rparr> =
     Inr \<lparr>stack = [], accum = [(0, 0)], visited = {0}\<rparr>
   \<and> dfs_loop (graph_of []) (predicate (\<lambda>_. True)) None (dfs_init 0) =
     dfs_loop (graph_of []) (predicate (\<lambda>_. True)) None \<lparr>stack = [], accum = [(0, 0)], visited = {0}\<rparr>"
  using C5_probes_swallowed [where g = "graph_of []" and n = 0 and s = "dfs_init 0"
      and distance = 0 and depth = 0 and rest = "[]" and p = "\<lambda>_. True" and max_depth = None
      and vis = "predicate (\<lambda>_. True)"]
  by (simp add: graph_of_def bare_def dfs_init_def accept_def predicate_def)


section \<open>What a turn of the loop can change, and invariants of the loop\<close>

lemma accept_Inr:
  assumes "accept vis n dist s = Inr s'"
  shows "stack s' = stack s \<and> visited s' = insert n (visited s)
       \<and> (accum s' = accum s \<or> (accum s' = accum s @ [(n, dist)] \<and> vis n = Inr True))"
  using assms by (auto simp: accept_def split: sum.splits if_splits)

lemma plain_node_Inr:
  assumes "plain_node g vis n dist d s = Inr s'"
  shows "(\<exists>pushed. stack s' = pushed @ stack s \<and> fst ` set pushed \<subseteq> successors g n)
       \<and> visited s' = insert n (visited s)
       \<and> (accum s' = accum s \<or> (accum s' = accum s @ [(n, dist)] \<and> vis n = Inr True))"
proof (cases "function_inputs g n")
  case (Some ins)
  let ?s1 = "s\<lparr>stack := rev (map (\<lambda>i. (i, dist + 1, d)) ins) @ stack s\<rparr>"
  from assms Some have "accept vis n dist ?s1 = Inr s'"
    by (simp add: plain_node_def)
  from accept_Inr [OF this] Some show ?thesis
    by (auto simp: successors_def image_iff)
next
  case None
  show ?thesis
  proof (cases "is_output (g n) = Some True \<and> owner (g n) \<noteq> None")
    case True
    with assms None show ?thesis
      by (auto simp: plain_node_def successors_def)
  next
    case False
    with assms None have "accept vis n dist s = Inr s'"
      by (auto simp: plain_node_def split: option.splits bool.splits)
    from accept_Inr [OF this] show ?thesis by auto
  qed
qed

lemma dfs_body_Inr:
  assumes "dfs_body g vis md (n, dist, d) s = Inr s'"
  shows "(n \<in> visited s \<and> s' = s)
       \<or> (n \<notin> visited s \<and> insert n (visited s) \<subseteq> visited s'
          \<and> (\<exists>pushed. stack s' = pushed @ stack s \<and> fst ` set pushed \<subseteq> successors g n)
          \<and> (accum s' = accum s \<or> (accum s' = accum s @ [(n, dist)] \<and> vis n = Inr True)))"
proof (cases "n \<in> visited s")
  case True
  with assms show ?thesis by (simp add: dfs_body_def)
next
  case nv: False
  show ?thesis
  proof (cases "if may_expand md d then block_probe g n else None")
    case None
    with assms nv have "plain_node g vis n dist d s = Inr s'"
      by (simp add: dfs_body_def)
    from plain_node_Inr [OF this] nv show ?thesis by auto
  next
    case (Some cm)
    obtain c m where cm: "cm = (c, m)" by (cases cm)
    from Some cm have probe: "block_probe g n = Some (c, m)"
      by (simp split: if_splits)
    let ?s1 = "s\<lparr>stack := (c, dist + 1, d + 1) # rev (map (\<lambda>(_, a). (a, dist + 1, d)) m) @ stack s,
                  visited := insert n (visited s \<union> set (map fst m))\<rparr>"
    have push: "fst ` set ((c, dist + 1, d + 1) # rev (map (\<lambda>(_, a). (a, dist + 1, d)) m)) \<subseteq> successors g n"
      using probe by (auto simp: successors_def intro: rev_image_eqI)
    show ?thesis
    proof (cases "vis n")
      case (Inr b)
      with assms nv Some cm have "s' = (if b then ?s1\<lparr>accum := accum ?s1 @ [(n, dist)]\<rparr> else ?s1)"
        by (auto simp: dfs_body_def Let_def)
      with nv push Inr show ?thesis
        by (auto simp del: set_map)
    next
      case (Inl e)
      with assms nv Some cm have "plain_node g vis n dist d ?s1 = Inr s'"
        by (simp add: dfs_body_def Let_def)
      from plain_node_Inr [OF this] obtain pushed where
        p: "stack s' = pushed @ stack ?s1" "fst ` set pushed \<subseteq> successors g n"
        and v: "visited s' = insert n (visited ?s1)"
        and a: "accum s' = accum ?s1 \<or> (accum s' = accum ?s1 @ [(n, dist)] \<and> vis n = Inr True)"
        by blast
      from p push have "stack s' = (pushed @ (c, dist + 1, d + 1) # rev (map (\<lambda>(_, a). (a, dist + 1, d)) m)) @ stack s
          \<and> fst ` set (pushed @ (c, dist + 1, d + 1) # rev (map (\<lambda>(_, a). (a, dist + 1, d)) m)) \<subseteq> successors g n"
        by (simp add: image_Un)
      then have "\<exists>pushed. stack s' = pushed @ stack s \<and> fst ` set pushed \<subseteq> successors g n"
        by blast
      with nv v a show ?thesis by auto
    qed
  qed
qed

lemma dfs_loop_invariant:
  assumes run: "dfs_loop g vis md s = Some (Inr s')"
    and init: "I s"
    and turn: "\<And>entry rest t t'. I t \<Longrightarrow> stack t = entry # rest \<Longrightarrow>
           dfs_body g vis md entry (t\<lparr>stack := rest\<rparr>) = Inr t' \<Longrightarrow> I t'"
  shows "I s' \<and> stack s' = []"
proof -
  define Q where "Q g vis md \<longleftrightarrow>
     (\<forall>entry rest t t'. I t \<longrightarrow> stack t = entry # rest \<longrightarrow>
           dfs_body g vis md entry (t\<lparr>stack := rest\<rparr>) = Inr t' \<longrightarrow> I t')" for g vis md
  have "Q g vis md \<longrightarrow> I s \<longrightarrow> r = Inr s' \<longrightarrow> I s' \<and> stack s' = []"
    if "dfs_loop g vis md s = Some r" for r
    using that
  proof (induction g vis md s r rule: dfs_loop.raw_induct [rotated, consumes 1])
    case (1 loop g vis md s r)
    show ?case
    proof (intro impI)
      assume q: "Q g vis md" and i: "I s" and r: "r = Inr s'"
      show "I s' \<and> stack s' = []"
      proof (cases "stack s")
        case Nil
        with 1(2) i r show ?thesis by simp
      next
        case (Cons entry rest)
        show ?thesis
        proof (cases "dfs_body g vis md entry (s\<lparr>stack := rest\<rparr>)")
          case (Inl e)
          with 1(2) Cons r show ?thesis by simp
        next
          case (Inr t)
          with 1(2) Cons have next_turn: "loop g vis md t = Some r" by simp
          have "I t"
            using q i Cons Inr unfolding Q_def by blast
          with 1(1) [OF next_turn] q r show ?thesis
            by simp
        qed
      qed
    qed
  qed
  moreover have "Q g vis md"
    unfolding Q_def using turn by blast
  ultimately show ?thesis
    using run init by blast
qed


section \<open>Termination and uniqueness\<close>

lemma dfs_loop_terminates:
  assumes fin: "finite U"
    and closed: "\<forall>a\<in>U. successors g a \<subseteq> U"
    and inU: "fst ` set (stack s) \<subseteq> U"
  shows "\<exists>r. dfs_loop g vis md s = Some r"
proof -
  let ?R = "inv_image (less_than <*lex*> less_than)
              (\<lambda>s. (card (U - visited s), length (stack s)))"
  have "wf ?R"
    by (intro wf_inv_image wf_lex_prod wf_less_than)
  then have "fst ` set (stack s) \<subseteq> U \<longrightarrow> (\<exists>r. dfs_loop g vis md s = Some r)"
  proof (induction s rule: wf_induct_rule)
    case (less s)
    show ?case
    proof (intro impI)
      assume inU: "fst ` set (stack s) \<subseteq> U"
      show "\<exists>r. dfs_loop g vis md s = Some r"
      proof (cases "stack s")
        case Nil
        then show ?thesis by (subst dfs_loop.simps) simp
      next
        case (Cons entry rest)
        obtain n dist d where entry: "entry = (n, dist, d)" by (cases entry)
        from inU Cons entry have nU: "n \<in> U" and restU: "fst ` set rest \<subseteq> U"
          by auto
        show ?thesis
        proof (cases "dfs_body g vis md entry (s\<lparr>stack := rest\<rparr>)")
          case (Inl e)
          with Cons show ?thesis by (subst dfs_loop.simps) simp
        next
          case (Inr t)
          have eq: "dfs_loop g vis md s = dfs_loop g vis md t"
            using Cons Inr by (rule dfs_loop_turn)
          from Inr entry have "dfs_body g vis md (n, dist, d) (s\<lparr>stack := rest\<rparr>) = Inr t"
            by simp
          from dfs_body_Inr [OF this]
          have "t = s\<lparr>stack := rest\<rparr>
              \<or> (n \<notin> visited s \<and> insert n (visited s) \<subseteq> visited t
                 \<and> (\<exists>pushed. stack t = pushed @ rest \<and> fst ` set pushed \<subseteq> successors g n))"
            by auto
          then have "(t, s) \<in> ?R \<and> fst ` set (stack t) \<subseteq> U"
          proof (elim disjE conjE exE)
            assume "t = s\<lparr>stack := rest\<rparr>"
            with Cons restU show ?thesis by simp
          next
            fix pushed
            assume nv: "n \<notin> visited s"
              and sub: "insert n (visited s) \<subseteq> visited t"
              and st: "stack t = pushed @ rest"
              and pu: "fst ` set pushed \<subseteq> successors g n"
            from sub nv nU have "U - visited t \<subset> U - visited s"
              by auto
            with fin have "card (U - visited t) < card (U - visited s)"
              by (simp add: psubset_card_mono)
            moreover from st pu closed nU restU have "fst ` set (stack t) \<subseteq> U"
              by (auto simp: image_Un)
            ultimately show ?thesis by simp
          qed
          with less.IH [of t] eq show ?thesis by simp
        qed
      qed
    qed
  qed
  with inU show ?thesis by blast
qed

lemma reachable_closed: "\<forall>a\<in>reachable g root. successors g a \<subseteq> reachable g root"
  by (auto intro: reachable.step)

lemma reachable_subset:
  assumes "root \<in> U" and "\<forall>a\<in>U. successors g a \<subseteq> U"
  shows "reachable g root \<subseteq> U"
proof
  fix n assume "n \<in> reachable g root"
  then show "n \<in> U"
    using assms by (induction rule: reachable.induct) auto
qed

lemma dfs_loop_init_terminates:
  assumes "finite (reachable g root)"
  shows "\<exists>r. dfs_loop g vis md (dfs_init root) = Some r"
  using dfs_loop_terminates [OF assms reachable_closed, of "dfs_init root"]
  by (simp add: dfs_init_def reachable.root)

lemma accum_ok_turn:
  assumes "accum_ok t" and "stack t = entry # rest"
    and "dfs_body g vis md entry (t\<lparr>stack := rest\<rparr>) = Inr t'"
  shows "accum_ok t'"
proof -
  obtain n dist d where entry: "entry = (n, dist, d)" by (cases entry)
  from assms(3) entry have "dfs_body g vis md (n, dist, d) (t\<lparr>stack := rest\<rparr>) = Inr t'"
    by simp
  from dfs_body_Inr [OF this] assms(1) show ?thesis
    by (fastforce simp: accum_ok_def image_subset_iff)
qed

lemma dfs_accum_distinct:
  assumes "dfs_accum g root vis md = Some (Inr acc)"
  shows "distinct (map fst acc)"
proof -
  from assms obtain s where run: "dfs_loop g vis md (dfs_init root) = Some (Inr s)"
    and acc: "acc = accum s"
    by (auto simp: dfs_accum_def split: option.splits sum.splits)
  have "accum_ok (dfs_init root)"
    by (simp add: accum_ok_def dfs_init_def)
  from dfs_loop_invariant [of g vis md "dfs_init root" s accum_ok, OF run this accum_ok_turn]
  show ?thesis
    using acc by (auto simp: accum_ok_def)
qed

lemma dfs_body_predicate: "dfs_body g (predicate p) md entry s \<noteq> Inl e"
  by (cases entry)
    (auto simp: dfs_body_def plain_node_def accept_def predicate_def Let_def
      split: option.splits bool.splits)

lemma dfs_loop_predicate:
  assumes "dfs_loop g (predicate p) md s = Some r"
  shows "\<exists>s'. r = Inr s'"
  using assms
proof (induction g "predicate p" md s r rule: dfs_loop.raw_induct [rotated, consumes 1])
  case (1 loop g md s r)
  show ?case
  proof (cases "stack s")
    case Nil
    with 1(2) show ?thesis by auto
  next
    case (Cons entry rest)
    show ?thesis
    proof (cases "dfs_body g (predicate p) md entry (s\<lparr>stack := rest\<rparr>)")
      case (Inl e)
      then show ?thesis by (simp add: dfs_body_predicate)
    next
      case (Inr t)
      with 1(2) Cons have "loop g (predicate p) md t = Some r" by simp
      from 1(1) [OF this] show ?thesis by simp
    qed
  qed
qed

lemma depth_first_search_distinct:
  assumes "depth_first_search g root vis md sbd = Some (Inr xs)"
  shows "distinct xs"
proof -
  from assms obtain acc where acc: "dfs_accum g root vis md = Some (Inr acc)"
    and xs: "xs = map fst (if sbd then sort_key snd acc else acc)"
    by (auto simp: depth_first_search_def split: option.splits sum.splits)
  from dfs_accum_distinct [OF acc] have d: "distinct (map fst acc)" .
  show ?thesis
  proof (cases sbd)
    case False
    with xs d show ?thesis by simp
  next
    case True
    have "distinct (map fst (sort_key snd acc)) = distinct (map fst acc)"
      by (simp add: distinct_map)
    with xs d True show ?thesis by simp
  qed
qed

lemma depth_first_search_terminates:
  assumes "finite (reachable g root)"
  shows "\<exists>r. depth_first_search g root vis md sbd = Some r"
proof -
  from dfs_loop_init_terminates [OF assms] obtain r where
    "dfs_loop g vis md (dfs_init root) = Some r" by blast
  then show ?thesis
    by (cases r) (simp_all add: depth_first_search_def dfs_accum_def)
qed

lemma depth_first_search_predicate:
  assumes "depth_first_search g root (predicate p) md sbd = Some r"
  shows "\<exists>xs. r = Inr xs"
proof -
  from assms obtain r' where run: "dfs_loop g (predicate p) md (dfs_init root) = Some r'"
    by (auto simp: depth_first_search_def dfs_accum_def split: option.splits)
  from dfs_loop_predicate [OF run] obtain s' where "r' = Inr s'" by blast
  with run assms show ?thesis
    by (auto simp: depth_first_search_def dfs_accum_def)
qed

text \<open>
  Claim C2. On a graph in which finitely many nodes can be reached from the root, cycles
  or not, \<^verbatim>\<open>depth_first_search\<close> returns: with any visitor it ends, with a list or with
  the exception of the visitor, and with a visitor that is a predicate it ends with a
  list. The list never holds a node twice, since a node is appended only in a turn that
  finds it unvisited and marks it.
\<close>

theorem C2_terminates_without_duplicates:
  assumes "finite (reachable g root)"
  shows "(\<exists>r. depth_first_search g root vis max_depth sort_by_distance = Some r
            \<and> (\<forall>xs. r = Inr xs \<longrightarrow> distinct xs))
       \<and> (\<exists>xs. depth_first_search g root (predicate p) max_depth sort_by_distance = Some (Inr xs)
            \<and> distinct xs)"
proof
  from depth_first_search_terminates [OF assms] obtain r where
    r: "depth_first_search g root vis max_depth sort_by_distance = Some r" by blast
  then have "\<forall>xs. r = Inr xs \<longrightarrow> distinct xs"
    by (auto dest: depth_first_search_distinct)
  with r show "\<exists>r. depth_first_search g root vis max_depth sort_by_distance = Some r
            \<and> (\<forall>xs. r = Inr xs \<longrightarrow> distinct xs)" by blast
next
  from depth_first_search_terminates [OF assms] obtain r where
    r: "depth_first_search g root (predicate p) max_depth sort_by_distance = Some r" by blast
  from depth_first_search_predicate [OF r] obtain xs where "r = Inr xs" by blast
  with r depth_first_search_distinct [of g root "predicate p" max_depth sort_by_distance xs]
  show "\<exists>xs. depth_first_search g root (predicate p) max_depth sort_by_distance = Some (Inr xs)
            \<and> distinct xs" by blast
qed

lemma cycle_graph_finite: "finite (reachable cycle_graph 0)"
proof -
  have "reachable cycle_graph 0 \<subseteq> {0, 1, 2}"
    by (rule reachable_subset)
      (simp_all add: successors_def function_inputs_def block_probe_def cycle_graph_def
        graph_of_def bare_def)
  then show ?thesis
    by (rule finite_subset) simp
qed

theorem C2_witness:
  "finite (reachable cycle_graph 0)
   \<and> (\<exists>xs. depth_first_search cycle_graph 0 (predicate (\<lambda>_. True)) None False = Some (Inr xs)
          \<and> distinct xs)
   \<and> depth_first_search cycle_graph 0 (predicate (\<lambda>_. True)) None False = Some (Inr [0, 1])"
proof -
  have run: "depth_first_search cycle_graph 0 (predicate (\<lambda>_. True)) None False = Some (Inr [0, 1])"
    by code_simp
  from C2_terminates_without_duplicates [OF cycle_graph_finite, of _ None False "\<lambda>_. True"]
  show ?thesis
    using cycle_graph_finite run by blast
qed


section \<open>Distances and the sorted result\<close>

lemma accept_stack: "accept vis n dist s = Inr s' \<Longrightarrow> stack s' = stack s"
  by (auto simp: accept_def split: sum.splits)

lemma plain_node_pushed:
  assumes "plain_node g vis n dist d s = Inr s'"
  shows "\<exists>pushed. stack s' = pushed @ stack s
           \<and> (\<forall>e\<in>set pushed. fst e \<in> successors g n \<and> fst (snd e) = dist + 1)"
proof (cases "function_inputs g n")
  case (Some ins)
  with assms have "stack s' = rev (map (\<lambda>i. (i, dist + 1, d)) ins) @ stack s"
    by (auto simp: plain_node_def dest: accept_stack)
  moreover have "\<forall>e\<in>set (rev (map (\<lambda>i. (i, dist + 1, d)) ins)). fst e \<in> successors g n \<and> fst (snd e) = dist + 1"
    using Some by (auto simp: successors_def)
  ultimately show ?thesis by blast
next
  case None
  show ?thesis
  proof (cases "is_output (g n) = Some True \<and> owner (g n) \<noteq> None")
    case True
    then obtain ow where ow: "owner (g n) = Some ow" by auto
    with assms None True have "stack s' = [(ow, dist + 1, d)] @ stack s"
      by (auto simp: plain_node_def)
    moreover have "\<forall>e\<in>set [(ow, dist + 1, d)]. fst e \<in> successors g n \<and> fst (snd e) = dist + 1"
      using ow by (simp add: successors_def)
    ultimately show ?thesis by blast
  next
    case False
    with assms None have "accept vis n dist s = Inr s'"
      by (auto simp: plain_node_def split: option.splits bool.splits)
    then have "stack s' = [] @ stack s"
      by (simp add: accept_stack)
    then show ?thesis by fastforce
  qed
qed

lemma dfs_body_pushed:
  assumes "dfs_body g vis md (n, dist, d) s = Inr s'"
  shows "\<exists>pushed. stack s' = pushed @ stack s
           \<and> (\<forall>e\<in>set pushed. fst e \<in> successors g n \<and> fst (snd e) = dist + 1)"
proof (cases "n \<in> visited s")
  case True
  with assms have "stack s' = [] @ stack s" by (simp add: dfs_body_def)
  then show ?thesis by fastforce
next
  case nv: False
  show ?thesis
  proof (cases "if may_expand md d then block_probe g n else None")
    case None
    with assms nv have "plain_node g vis n dist d s = Inr s'"
      by (simp add: dfs_body_def)
    then show ?thesis by (rule plain_node_pushed)
  next
    case (Some cm)
    obtain c m where cm: "cm = (c, m)" by (cases cm)
    from Some cm have probe: "block_probe g n = Some (c, m)"
      by (simp split: if_splits)
    let ?block = "(c, dist + 1, d + 1) # rev (map (\<lambda>(_, a). (a, dist + 1, d)) m)"
    let ?s1 = "s\<lparr>stack := ?block @ stack s,
                  visited := insert n (visited s \<union> set (map fst m))\<rparr>"
    have push: "\<forall>e\<in>set ?block. fst e \<in> successors g n \<and> fst (snd e) = dist + 1"
      using probe by (auto simp: successors_def intro: rev_image_eqI)
    show ?thesis
    proof (cases "vis n")
      case (Inr b)
      with assms nv Some cm have "stack s' = ?block @ stack s"
        by (auto simp: dfs_body_def Let_def)
      with push show ?thesis by blast
    next
      case (Inl e)
      with assms nv Some cm have "plain_node g vis n dist d ?s1 = Inr s'"
        by (simp add: dfs_body_def Let_def)
      from plain_node_pushed [OF this] obtain pushed where
        p: "stack s' = pushed @ stack ?s1"
          "\<forall>e\<in>set pushed. fst e \<in> successors g n \<and> fst (snd e) = dist + 1"
        by blast
      from p(1) have "stack s' = (pushed @ ?block) @ stack s" by simp
      moreover from p(2) push
      have "\<forall>e\<in>set (pushed @ ?block). fst e \<in> successors g n \<and> fst (snd e) = dist + 1"
        by (simp add: ball_Un)
      ultimately show ?thesis by blast
    qed
  qed
qed

lemma distances_ok_turn:
  assumes ok: "distances_ok g root t" and st: "stack t = entry # rest"
    and body: "dfs_body g vis md entry (t\<lparr>stack := rest\<rparr>) = Inr t'"
  shows "distances_ok g root t'"
proof -
  obtain n dist d where entry: "entry = (n, dist, d)" by (cases entry)
  from ok st entry have here: "reach_in g root dist n"
    and rest: "\<forall>e \<in> set rest. reach_in g root (fst (snd e)) (fst e)"
    and acc: "\<forall>e \<in> set (accum t). reach_in g root (snd e) (fst e)"
    by (auto simp: distances_ok_def)
  from body entry have b: "dfs_body g vis md (n, dist, d) (t\<lparr>stack := rest\<rparr>) = Inr t'"
    by simp
  from dfs_body_pushed [OF b] obtain pushed where
    p: "stack t' = pushed @ rest"
      "\<forall>e\<in>set pushed. fst e \<in> successors g n \<and> fst (snd e) = dist + 1"
    by auto
  have "\<forall>e\<in>set pushed. reach_in g root (fst (snd e)) (fst e)"
  proof
    fix e assume "e \<in> set pushed"
    with p(2) have "fst e \<in> successors g n" "fst (snd e) = Suc dist" by auto
    with reach_in.suc [OF here] show "reach_in g root (fst (snd e)) (fst e)" by simp
  qed
  with p(1) rest have s: "\<forall>e \<in> set (stack t'). reach_in g root (fst (snd e)) (fst e)"
    by auto
  from dfs_body_Inr [OF b] here acc
  have "\<forall>e \<in> set (accum t'). reach_in g root (snd e) (fst e)"
    by auto
  with s show ?thesis by (simp add: distances_ok_def)
qed

lemma dfs_accum_distances:
  assumes "dfs_accum g root vis md = Some (Inr acc)"
  shows "\<forall>e \<in> set acc. reach_in g root (snd e) (fst e)"
proof -
  from assms obtain s where run: "dfs_loop g vis md (dfs_init root) = Some (Inr s)"
    and acc: "acc = accum s"
    by (auto simp: dfs_accum_def split: option.splits sum.splits)
  have "distances_ok g root (dfs_init root)"
    by (simp add: distances_ok_def dfs_init_def reach_in.zero)
  from dfs_loop_invariant [of g vis md "dfs_init root" s "distances_ok g root", OF run this distances_ok_turn]
  have "distances_ok g root s" by simp
  then show ?thesis
    unfolding acc distances_ok_def by blast
qed

lemma recorded_distance_map:
  assumes "distinct (map fst acc)" and "set ys \<subseteq> set acc"
  shows "map (recorded_distance acc) (map fst ys) = map snd ys"
proof -
  have "recorded_distance acc (fst e) = snd e" if "e \<in> set ys" for e
  proof -
    from that assms(2) have "(fst e, snd e) \<in> set acc" by auto
    with assms(1) have "map_of acc (fst e) = Some (snd e)" by simp
    then show ?thesis by (simp add: recorded_distance_def)
  qed
  then show ?thesis by simp
qed

text \<open>
  Claim C4. \<open>acc\<close> is the list \<^verbatim>\<open>accum\<close> at the end of the loop: each accepted node
  with the distance of the stack entry that was popped when it was accepted, which is the
  length of a chain of successors from the root. With \<^verbatim>\<open>sort_by_distance\<close> true the
  list returned holds the same nodes in non-decreasing order of that distance; with
  \<^verbatim>\<open>sort_by_distance\<close> false it is the nodes of \<open>acc\<close> in the order of acceptance.
\<close>

theorem C4_sorted_by_distance:
  assumes "dfs_accum g root vis max_depth = Some (Inr acc)"
  shows "(\<forall>n dist. (n, dist) \<in> set acc \<longrightarrow> reach_in g root dist n)
       \<and> (\<exists>xs. depth_first_search g root vis max_depth True = Some (Inr xs)
              \<and> sorted (map (recorded_distance acc) xs)
              \<and> set xs = fst ` set acc \<and> length xs = length acc)
       \<and> depth_first_search g root vis max_depth False = Some (Inr (map fst acc))"
proof (intro conjI)
  from dfs_accum_distances [OF assms]
  show "\<forall>n dist. (n, dist) \<in> set acc \<longrightarrow> reach_in g root dist n"
    by fastforce
next
  let ?xs = "map fst (sort_key snd acc)"
  have "map (recorded_distance acc) ?xs = map snd (sort_key snd acc)"
    using dfs_accum_distinct [OF assms] by (rule recorded_distance_map) simp
  then have "sorted (map (recorded_distance acc) ?xs)"
    by (simp only: sorted_sort_key)
  moreover have "depth_first_search g root vis max_depth True = Some (Inr ?xs)"
    using assms by (simp add: depth_first_search_def)
  moreover have "set ?xs = fst ` set acc \<and> length ?xs = length acc"
    by simp
  ultimately show "\<exists>xs. depth_first_search g root vis max_depth True = Some (Inr xs)
              \<and> sorted (map (recorded_distance acc) xs)
              \<and> set xs = fst ` set acc \<and> length xs = length acc"
    by blast
next
  show "depth_first_search g root vis max_depth False = Some (Inr (map fst acc))"
    using assms by (simp add: depth_first_search_def)
qed

theorem C4_witness:
  "dfs_accum fork_graph 0 (predicate (\<lambda>_. True)) None = Some (Inr [(0, 0), (2, 1), (3, 2), (1, 1)])
   \<and> depth_first_search fork_graph 0 (predicate (\<lambda>_. True)) None False = Some (Inr [0, 2, 3, 1])
   \<and> (\<exists>xs. depth_first_search fork_graph 0 (predicate (\<lambda>_. True)) None True = Some (Inr xs)
          \<and> sorted (map (recorded_distance [(0, 0), (2, 1), (3, 2), (1, 1)]) xs))
   \<and> depth_first_search fork_graph 0 (predicate (\<lambda>_. True)) None True = Some (Inr [0, 2, 1, 3])"
proof -
  have acc: "dfs_accum fork_graph 0 (predicate (\<lambda>_. True)) None
      = Some (Inr [(0, 0), (2, 1), (3, 2), (1, 1)])"
    by code_simp
  have srt: "depth_first_search fork_graph 0 (predicate (\<lambda>_. True)) None True = Some (Inr [0, 2, 1, 3])"
    by (simp add: depth_first_search_def acc)
  from C4_sorted_by_distance [OF acc] acc srt show ?thesis
    by simp
qed


section \<open>Output variables\<close>

lemma dfs_body_output_variable:
  assumes "output_variable g n" and "n \<notin> visited s"
  shows "dfs_body g vis md (n, dist, d) s =
         Inr (s\<lparr>stack := (the (owner (g n)), dist + 1, d) # stack s,
                visited := insert n (visited s)\<rparr>)"
  using assms by (auto simp: output_variable_def dfs_body_def plain_node_def)

lemma dfs_body_output_variable_accum:
  assumes "output_variable g n" and "dfs_body g vis md (n, dist, d) s = Inr s'"
  shows "accum s' = accum s"
proof (cases "n \<in> visited s")
  case True
  with assms(2) show ?thesis by (simp add: dfs_body_def)
next
  case False
  from dfs_body_output_variable [OF assms(1) False, of vis md dist d] assms(2)
  show ?thesis by auto
qed

lemma no_output_variable_turn:
  assumes ov: "output_variable g n"
    and inv: "n \<notin> fst ` set (accum t)" and st: "stack t = entry # rest"
    and body: "dfs_body g vis md entry (t\<lparr>stack := rest\<rparr>) = Inr t'"
  shows "n \<notin> fst ` set (accum t')"
proof -
  obtain m dist d where entry: "entry = (m, dist, d)" by (cases entry)
  from body entry have b: "dfs_body g vis md (m, dist, d) (t\<lparr>stack := rest\<rparr>) = Inr t'"
    by simp
  show ?thesis
  proof (cases "m = n")
    case True
    with dfs_body_output_variable_accum [OF ov] b inv show ?thesis by simp
  next
    case False
    with dfs_body_Inr [OF b] inv show ?thesis by auto
  qed
qed

lemma dfs_accum_no_output_variable:
  assumes "output_variable g n" and "dfs_accum g root vis md = Some (Inr acc)"
  shows "n \<notin> fst ` set acc"
proof -
  from assms(2) obtain s where run: "dfs_loop g vis md (dfs_init root) = Some (Inr s)"
    and acc: "acc = accum s"
    by (auto simp: dfs_accum_def split: option.splits sum.splits)
  have "n \<notin> fst ` set (accum s) \<and> stack s = []"
  proof (rule dfs_loop_invariant [of g vis md "dfs_init root" s "\<lambda>t. n \<notin> fst ` set (accum t)", OF run])
    show "n \<notin> fst ` set (accum (dfs_init root))"
      by (simp add: dfs_init_def)
  next
    fix entry rest t t'
    assume "n \<notin> fst ` set (accum t)" "stack t = entry # rest"
      "dfs_body g vis md entry (t\<lparr>stack := rest\<rparr>) = Inr t'"
    then show "n \<notin> fst ` set (accum t')"
      by (rule no_output_variable_turn [OF assms(1)])
  qed
  then show ?thesis by (simp add: acc)
qed

lemma depth_first_search_set:
  assumes "depth_first_search g root vis md sbd = Some (Inr xs)"
  shows "\<exists>acc. dfs_accum g root vis md = Some (Inr acc) \<and> set xs = fst ` set acc"
proof -
  from assms obtain acc where acc: "dfs_accum g root vis md = Some (Inr acc)"
    and xs: "xs = map fst (if sbd then sort_key snd acc else acc)"
    by (auto simp: depth_first_search_def split: option.splits sum.splits)
  from xs have "set xs = fst ` set acc" by simp
  with acc show ?thesis by blast
qed

lemma depth_first_search_no_output_variable:
  assumes "output_variable g n" and "depth_first_search g root vis md sbd = Some (Inr xs)"
  shows "n \<notin> set xs"
  using depth_first_search_set [OF assms(2)] dfs_accum_no_output_variable [OF assms(1)]
  by auto

lemma dfs_body_visitor_irrelevant:
  assumes ov: "output_variable g n" and same: "\<forall>m. m \<noteq> n \<longrightarrow> vis m = vis' m"
  shows "dfs_body g vis md entry s = dfs_body g vis' md entry s"
proof -
  obtain m dist d where entry: "entry = (m, dist, d)" by (cases entry)
  show ?thesis
  proof (cases "m = n")
    case True
    show ?thesis
    proof (cases "n \<in> visited s")
      case True
      with \<open>m = n\<close> entry show ?thesis by (simp add: dfs_body_def)
    next
      case False
      with \<open>m = n\<close> entry dfs_body_output_variable [OF ov False] show ?thesis by simp
    qed
  next
    case False
    with same have eq: "vis m = vis' m" by simp
    then have acc: "accept vis m = accept vis' m"
      by (intro ext) (simp add: accept_def)
    then have "plain_node g vis m = plain_node g vis' m"
      by (intro ext, unfold plain_node_def) (simp cong: option.case_cong bool.case_cong)
    with entry eq show ?thesis
      by (simp add: dfs_body_def Let_def cong: option.case_cong prod.case_cong sum.case_cong)
  qed
qed

lemma dfs_loop_visitor_irrelevant_Some:
  assumes "dfs_loop g vis md s = Some r"
    and "\<forall>entry t. dfs_body g vis md entry t = dfs_body g vis' md entry t"
  shows "dfs_loop g vis' md s = Some r"
  using assms
proof (induction g vis md s r rule: dfs_loop.raw_induct [rotated, consumes 1])
  case (1 loop g vis md s r)
  show ?case
  proof (cases "stack s")
    case Nil
    with 1(2) show ?thesis by (subst dfs_loop.simps) simp
  next
    case (Cons entry rest)
    show ?thesis
    proof (cases "dfs_body g vis md entry (s\<lparr>stack := rest\<rparr>)")
      case (Inl e)
      moreover from 1(3) have "dfs_body g vis md entry (s\<lparr>stack := rest\<rparr>)
          = dfs_body g vis' md entry (s\<lparr>stack := rest\<rparr>)"
        by blast
      ultimately have "dfs_body g vis' md entry (s\<lparr>stack := rest\<rparr>) = Inl e"
        by simp
      moreover from 1(2) Cons Inl have "r = Inl e" by simp
      ultimately show ?thesis
        using Cons by (subst dfs_loop.simps) simp
    next
      case (Inr t)
      with 1(2) Cons have "loop g vis md t = Some r" by simp
      from 1(1) [OF this 1(3)] have "dfs_loop g vis' md t = Some r" .
      moreover from 1(3) have "dfs_body g vis md entry (s\<lparr>stack := rest\<rparr>)
          = dfs_body g vis' md entry (s\<lparr>stack := rest\<rparr>)"
        by blast
      with Inr have "dfs_body g vis' md entry (s\<lparr>stack := rest\<rparr>) = Inr t"
        by simp
      ultimately show ?thesis
        using Cons by (subst dfs_loop.simps) simp
    qed
  qed
qed

lemma dfs_loop_visitor_irrelevant:
  assumes "\<forall>entry t. dfs_body g vis md entry t = dfs_body g vis' md entry t"
  shows "dfs_loop g vis md s = dfs_loop g vis' md s"
proof (cases "dfs_loop g vis md s")
  case (Some r)
  from dfs_loop_visitor_irrelevant_Some [OF Some assms] Some show ?thesis by simp
next
  case None
  show ?thesis
  proof (cases "dfs_loop g vis' md s")
    case None
    with \<open>dfs_loop g vis md s = None\<close> show ?thesis by simp
  next
    case (Some r)
    from assms have "\<forall>entry t. dfs_body g vis' md entry t = dfs_body g vis md entry t"
      by simp
    from dfs_loop_visitor_irrelevant_Some [OF Some this] None show ?thesis by simp
  qed
qed

lemma depth_first_search_visitor_irrelevant:
  assumes "output_variable g n" and "\<forall>m. m \<noteq> n \<longrightarrow> vis m = vis' m"
  shows "depth_first_search g root vis md sbd = depth_first_search g root vis' md sbd"
proof -
  have "\<forall>entry t. dfs_body g vis md entry t = dfs_body g vis' md entry t"
    using dfs_body_visitor_irrelevant [OF assms] by blast
  from dfs_loop_visitor_irrelevant [OF this]
  show ?thesis by (simp add: depth_first_search_def dfs_accum_def)
qed

lemma find_by_name_in_search:
  assumes "find_by_name g root node_name md = Some (Inr (Some m))"
  shows "\<exists>xs. depth_first_search g root (name_is g node_name) md False = Some (Inr xs) \<and> m \<in> set xs"
  using assms
  by (auto simp: find_by_name_def split: if_splits option.splits sum.splits list.splits)

lemma try_find_closest_in_search:
  assumes "try_find_closest_by_name g root node_name md = Some (Inr (Some m))"
  shows "\<exists>xs. depth_first_search g root (name_is g node_name) md True = Some (Inr xs) \<and> m \<in> set xs"
  using assms
  by (auto simp: try_find_closest_by_name_def split: if_splits option.splits sum.splits list.splits)

text \<open>
  Claim C10. The node \<open>n\<close> is an output variable: it has no \<^verbatim>\<open>root_function\<close>, its
  \<^verbatim>\<open>is_output\<close> is true, it has an owner, and it is not a block (one of the two block
  attributes is missing). A turn of the loop that handles \<open>n\<close> pushes the owner at
  \<open>distance + 1\<close> and the same depth and marks \<open>n\<close>, without a call of the visitor:
  two visitors that agree on every other node give the same search. So \<open>n\<close> is in no
  list that \<^verbatim>\<open>depth_first_search\<close> or \<^verbatim>\<open>find_all_with_name\<close> returns, and neither
  \<^verbatim>\<open>find_by_name\<close> nor \<^verbatim>\<open>try_find_closest_by_name\<close> returns it, whatever its name.
\<close>

theorem C10_output_variable_never_returned:
  assumes "root_function (g n) = None" and "is_output (g n) = Some True"
    and "owner (g n) = Some ow"
    and "block_root (g n) = None \<or> block_arguments_mapping (g n) = None"
  shows "(n \<notin> visited s \<longrightarrow>
            dfs_body g vis max_depth (n, distance, depth) s =
            Inr (s\<lparr>stack := (ow, distance + 1, depth) # stack s,
                   visited := insert n (visited s)\<rparr>))
       \<and> ((\<forall>m. m \<noteq> n \<longrightarrow> vis m = vis' m) \<longrightarrow>
            depth_first_search g root vis max_depth sort_by_distance =
            depth_first_search g root vis' max_depth sort_by_distance)
       \<and> (\<forall>xs. depth_first_search g root vis max_depth sort_by_distance = Some (Inr xs)
              \<longrightarrow> n \<notin> set xs)
       \<and> (\<forall>xs. find_all_with_name g root node_name max_depth = Some (Inr xs) \<longrightarrow> n \<notin> set xs)
       \<and> find_by_name g root node_name max_depth \<noteq> Some (Inr (Some n))
       \<and> try_find_closest_by_name g root node_name max_depth \<noteq> Some (Inr (Some n))"
proof -
  have ov: "output_variable g n"
    using assms
    by (auto simp: output_variable_def block_probe_def function_inputs_def split: option.splits)
  have turn: "n \<notin> visited s \<longrightarrow>
            dfs_body g vis max_depth (n, distance, depth) s =
            Inr (s\<lparr>stack := (ow, distance + 1, depth) # stack s,
                   visited := insert n (visited s)\<rparr>)"
    using dfs_body_output_variable [OF ov, of s vis max_depth distance depth] assms(3)
    by simp
  have same: "(\<forall>m. m \<noteq> n \<longrightarrow> vis m = vis' m) \<longrightarrow>
            depth_first_search g root vis max_depth sort_by_distance =
            depth_first_search g root vis' max_depth sort_by_distance"
    using depth_first_search_visitor_irrelevant [OF ov] by blast
  have never: "depth_first_search g root v max_depth sbd = Some (Inr xs) \<Longrightarrow> n \<notin> set xs"
    for v sbd xs
    using depth_first_search_no_output_variable [OF ov] by blast
  have all: "\<forall>xs. find_all_with_name g root node_name max_depth = Some (Inr xs) \<longrightarrow> n \<notin> set xs"
    using never by (simp add: find_all_with_name_def)
  have one: "find_by_name g root node_name max_depth \<noteq> Some (Inr (Some n))"
    using find_by_name_in_search [of g root node_name max_depth n] never by blast
  have closest: "try_find_closest_by_name g root node_name max_depth \<noteq> Some (Inr (Some n))"
    using try_find_closest_in_search [of g root node_name max_depth n] never by blast
  from turn same never all one closest show ?thesis
    by blast
qed

theorem C10_witness:
  "name (cycle_graph 2) = Some ''f''
   \<and> dfs_body cycle_graph (name_is cycle_graph (PyStr ''f'')) None (2, 0, 0)
        \<lparr>stack = [], accum = [], visited = {}\<rparr>
      = Inr \<lparr>stack = [(0, 1, 0)], accum = [], visited = {2}\<rparr>
   \<and> find_all_with_name cycle_graph 2 (PyStr ''f'') None = Some (Inr [0])
   \<and> find_by_name cycle_graph 2 (PyStr ''f'') None \<noteq> Some (Inr (Some 2))
   \<and> find_by_name cycle_graph 2 (PyStr ''f'') None = Some (Inr (Some 0))"
proof -
  have all: "find_all_with_name cycle_graph 2 (PyStr ''f'') None = Some (Inr [0])"
    by code_simp
  have one: "find_by_name cycle_graph 2 (PyStr ''f'') None = Some (Inr (Some 0))"
    by code_simp
  from C10_output_variable_never_returned [where g = cycle_graph and n = 2 and ow = 0
      and s = "\<lparr>stack = [], accum = [], visited = {}\<rparr>" and distance = 0 and depth = 0
      and vis = "name_is cycle_graph (PyStr ''f'')" and max_depth = None and root = 2
      and node_name = "PyStr ''f''"]
  show ?thesis
    using all one by (simp add: cycle_graph_def graph_of_def bare_def)
qed


section \<open>Exceptions of the search and the name look-ups\<close>

lemma accept_Inl: "accept vis n dist s = Inl e \<Longrightarrow> vis n = Inl e"
  by (auto simp: accept_def split: sum.splits)

lemma plain_node_Inl: "plain_node g vis n dist d s = Inl e \<Longrightarrow> vis n = Inl e"
  by (auto simp: plain_node_def split: option.splits bool.splits dest: accept_Inl)

lemma dfs_body_Inl:
  assumes "dfs_body g vis md entry s = Inl e"
  shows "vis (fst entry) = Inl e"
proof -
  obtain n dist d where entry: "entry = (n, dist, d)" by (cases entry)
  from assms entry have "\<exists>s1. plain_node g vis n dist d s1 = Inl e"
    by (auto simp: dfs_body_def Let_def split: if_splits option.splits sum.splits)
  then show ?thesis
    using entry by (auto dest: plain_node_Inl)
qed

lemma dfs_loop_Inl:
  assumes "dfs_loop g vis md s = Some r"
  shows "r = Inl e \<longrightarrow> (\<exists>n. vis n = Inl e)"
  using assms
proof (induction g vis md s r rule: dfs_loop.raw_induct [rotated, consumes 1])
  case (1 loop g vis md s r)
  show ?case
  proof (cases "stack s")
    case Nil
    with 1(2) show ?thesis by auto
  next
    case (Cons entry rest)
    show ?thesis
    proof (cases "dfs_body g vis md entry (s\<lparr>stack := rest\<rparr>)")
      case (Inl e')
      with 1(2) Cons have "r = Inl e'" by simp
      with dfs_body_Inl [OF Inl] show ?thesis by blast
    next
      case (Inr t)
      with 1(2) Cons have "loop g vis md t = Some r" by simp
      from 1(1) [OF this] show ?thesis .
    qed
  qed
qed

lemma depth_first_search_Inl:
  assumes "depth_first_search g root vis md sbd = Some (Inl e)"
  shows "\<exists>n. vis n = Inl e"
proof -
  from assms have "dfs_loop g vis md (dfs_init root) = Some (Inl e)"
    by (auto simp: depth_first_search_def dfs_accum_def split: option.splits sum.splits)
  from dfs_loop_Inl [OF this] show ?thesis by simp
qed

lemma name_is_raises: "name_is g node_name n = Inl e \<Longrightarrow> e = AttributeError"
  by (auto simp: name_is_def split: option.splits)

lemma name_search_no_ValueError:
  "depth_first_search g root (name_is g node_name) md sbd \<noteq> Some (Inl ValueError)"
proof
  assume "depth_first_search g root (name_is g node_name) md sbd = Some (Inl ValueError)"
  from depth_first_search_Inl [OF this] obtain n where "name_is g node_name n = Inl ValueError"
    by blast
  from name_is_raises [OF this] show False by simp
qed

lemma accepted_turn:
  assumes inv: "\<forall>e\<in>set (accum t). vis (fst e) = Inr True" and st: "stack t = entry # rest"
    and body: "dfs_body g vis md entry (t\<lparr>stack := rest\<rparr>) = Inr t'"
  shows "\<forall>e\<in>set (accum t'). vis (fst e) = Inr True"
proof -
  obtain m dist d where entry: "entry = (m, dist, d)" by (cases entry)
  from body entry have b: "dfs_body g vis md (m, dist, d) (t\<lparr>stack := rest\<rparr>) = Inr t'"
    by simp
  from dfs_body_Inr [OF b] inv show ?thesis by auto
qed

lemma dfs_accum_accepted:
  assumes "dfs_accum g root vis md = Some (Inr acc)"
  shows "\<forall>e\<in>set acc. vis (fst e) = Inr True"
proof -
  from assms obtain s where run: "dfs_loop g vis md (dfs_init root) = Some (Inr s)"
    and acc: "acc = accum s"
    by (auto simp: dfs_accum_def split: option.splits sum.splits)
  have "(\<forall>e\<in>set (accum s). vis (fst e) = Inr True) \<and> stack s = []"
  proof (rule dfs_loop_invariant [of g vis md "dfs_init root" s
        "\<lambda>t. \<forall>e\<in>set (accum t). vis (fst e) = Inr True", OF run])
    show "\<forall>e\<in>set (accum (dfs_init root)). vis (fst e) = Inr True"
      by (simp add: dfs_init_def)
  next
    fix entry rest t t'
    assume "\<forall>e\<in>set (accum t). vis (fst e) = Inr True" "stack t = entry # rest"
      "dfs_body g vis md entry (t\<lparr>stack := rest\<rparr>) = Inr t'"
    then show "\<forall>e\<in>set (accum t'). vis (fst e) = Inr True"
      by (rule accepted_turn)
  qed
  then show ?thesis by (simp add: acc)
qed

lemma depth_first_search_accepted:
  assumes "depth_first_search g root vis md sbd = Some (Inr xs)" and "n \<in> set xs"
  shows "vis n = Inr True"
proof -
  from depth_first_search_set [OF assms(1)] obtain acc where
    acc: "dfs_accum g root vis md = Some (Inr acc)" and xs: "set xs = fst ` set acc"
    by blast
  from assms(2) xs obtain e where "e \<in> set acc" "n = fst e" by auto
  with dfs_accum_accepted [OF acc] show ?thesis by simp
qed

text \<open>
  Claim C9. \<^verbatim>\<open>find_by_name\<close> raises \<^verbatim>\<open>ValueError\<close> exactly when \<^verbatim>\<open>node_name\<close> is not a
  string or the search for the name (the list \<^verbatim>\<open>find_all_with_name\<close> returns, under the
  same depth limit) finds more than one node. When it returns, it returns \<^verbatim>\<open>None\<close> if
  the search found nothing, and otherwise the one node found, whose name is
  \<^verbatim>\<open>node_name\<close>. With a string and finitely many reachable nodes it does end. The graph
  is an argument that the function only reads: no value of the model holds a changed
  graph.
\<close>

theorem C9_find_by_name:
  "(find_by_name g node node_name max_depth = Some (Inl ValueError) \<longleftrightarrow>
      \<not> is_str node_name
      \<or> (\<exists>found. find_all_with_name g node node_name max_depth = Some (Inr found)
             \<and> 1 < length found))
   \<and> (\<forall>r. find_by_name g node node_name max_depth = Some (Inr r) \<longrightarrow>
         (\<exists>found. find_all_with_name g node node_name max_depth = Some (Inr found)
            \<and> (case r of
                  None \<Rightarrow> found = []
                | Some m \<Rightarrow> found = [m] \<and> node_name = PyStr (the (name (g m))))))
   \<and> (is_str node_name \<and> finite (reachable g node) \<longrightarrow>
         find_by_name g node node_name max_depth \<noteq> None)"
proof (intro conjI allI impI)
  show "find_by_name g node node_name max_depth = Some (Inl ValueError) \<longleftrightarrow>
      \<not> is_str node_name
      \<or> (\<exists>found. find_all_with_name g node node_name max_depth = Some (Inr found)
             \<and> 1 < length found)"
    using name_search_no_ValueError [of g node node_name max_depth False]
    by (auto simp: find_by_name_def find_all_with_name_def
        split: option.splits sum.splits list.splits)
next
  fix r
  assume r: "find_by_name g node node_name max_depth = Some (Inr r)"
  then obtain found where f: "depth_first_search g node (name_is g node_name) max_depth False
        = Some (Inr found)"
    and shape: "case r of None \<Rightarrow> found = [] | Some m \<Rightarrow> found = [m]"
    by (auto simp: find_by_name_def split: if_splits option.splits sum.splits list.splits)
  have "node_name = PyStr (the (name (g m)))" if "r = Some m" for m
  proof -
    from that shape have "m \<in> set found" by simp
    from depth_first_search_accepted [OF f this] show ?thesis
      by (auto simp: name_is_def split: option.splits)
  qed
  with f shape
  show "\<exists>found. find_all_with_name g node node_name max_depth = Some (Inr found)
            \<and> (case r of
                  None \<Rightarrow> found = []
                | Some m \<Rightarrow> found = [m] \<and> node_name = PyStr (the (name (g m))))"
    by (auto simp: find_all_with_name_def split: option.splits)
next
  assume "is_str node_name \<and> finite (reachable g node)"
  then have s: "is_str node_name" and fin: "finite (reachable g node)" by simp_all
  from depth_first_search_terminates [OF fin, of "name_is g node_name" max_depth False]
  obtain res where "depth_first_search g node (name_is g node_name) max_depth False = Some res"
    by blast
  with s show "find_by_name g node node_name max_depth \<noteq> None"
    by (auto simp: find_by_name_def split: sum.splits list.splits)
qed

lemma fork_graph_finite: "finite (reachable fork_graph 0)"
proof -
  have "reachable fork_graph 0 \<subseteq> {0, 1, 2, 3}"
    by (rule reachable_subset)
      (simp_all add: successors_def function_inputs_def block_probe_def fork_graph_def
        graph_of_def bare_def)
  then show ?thesis
    by (rule finite_subset) simp
qed

theorem C9_witness:
  "find_by_name fork_graph 0 (PyInt 3) None = Some (Inl ValueError)
   \<and> find_all_with_name fork_graph 0 (PyStr ''x'') None = Some (Inr [3, 1])
   \<and> find_by_name fork_graph 0 (PyStr ''x'') None = Some (Inl ValueError)
   \<and> find_by_name fork_graph 0 (PyStr ''log'') None = Some (Inr (Some 2))
   \<and> find_all_with_name fork_graph 0 (PyStr ''log'') None = Some (Inr [2])
   \<and> find_by_name fork_graph 0 (PyStr ''exp'') None = Some (Inr None)
   \<and> is_str (PyStr ''log'') \<and> finite (reachable fork_graph 0)
   \<and> find_by_name fork_graph 0 (PyStr ''log'') None \<noteq> None"
proof -
  have a: "find_all_with_name fork_graph 0 (PyStr ''x'') None = Some (Inr [3, 1])"
    by code_simp
  have b: "find_by_name fork_graph 0 (PyStr ''log'') None = Some (Inr (Some 2))"
    by code_simp
  have c: "find_by_name fork_graph 0 (PyStr ''exp'') None = Some (Inr None)"
    by code_simp
  have d: "is_str (PyStr ''log'')" "\<not> is_str (PyInt 3)"
    by (simp_all add: is_str_def)
  have e1: "find_by_name fork_graph 0 (PyInt 3) None = Some (Inl ValueError)"
    using C9_find_by_name [of fork_graph 0 "PyInt 3" None] d(2) by blast
  have "\<exists>found. find_all_with_name fork_graph 0 (PyStr ''x'') None = Some (Inr found)
          \<and> 1 < length found"
    using a by simp
  then have e2: "find_by_name fork_graph 0 (PyStr ''x'') None = Some (Inl ValueError)"
    using C9_find_by_name [of fork_graph 0 "PyStr ''x''" None] by blast
  have "\<exists>found. find_all_with_name fork_graph 0 (PyStr ''log'') None = Some (Inr found)
          \<and> (case Some 2 of None \<Rightarrow> found = []
              | Some m \<Rightarrow> found = [m] \<and> PyStr ''log'' = PyStr (the (name (fork_graph m))))"
    using C9_find_by_name [of fork_graph 0 "PyStr ''log''" None] b by blast
  then have e3: "find_all_with_name fork_graph 0 (PyStr ''log'') None = Some (Inr [2])"
    by auto
  have e4: "find_by_name fork_graph 0 (PyStr ''log'') None \<noteq> None"
    using C9_find_by_name [of fork_graph 0 "PyStr ''log''" None] d(1) fork_graph_finite
    by blast
  from a b c d(1) e1 e2 e3 e4 fork_graph_finite show ?thesis
    by blast
qed


section \<open>The export: import, files and exceptions\<close>















section \<open>The export: its traversal and its text\<close>











section \<open>The text returned by the export\<close>











section \<open>What the search returns\<close>

lemma may_expand_within: "may_expand md d = within_limit md d"
  by (cases md) (simp_all add: may_expand_def within_limit_def)

lemma dfs_body_step:
  assumes nv: "n \<notin> visited s"
    and body: "dfs_body g (predicate p) md (n, dist, d) s = Inr s'"
  shows "place ` set (stack s') = pushes g md n d \<union> place ` set (stack s)
       \<and> visited s' = insert n (visited s) \<union> (if within_limit md d then formals g n else {})
       \<and> fst ` set (accum s') =
           fst ` set (accum s) \<union> (if p n \<and> \<not> taken_for_output g md n d then {n} else {})"
proof (cases "if may_expand md d then block_probe g n else None")
  case (Some cm)
  obtain c m where cm: "cm = (c, m)" by (cases cm)
  from Some cm have ex: "may_expand md d" and probe: "block_probe g n = Some (c, m)"
    by (simp_all split: if_splits)
  from ex have lim: "within_limit md d" by (simp add: may_expand_within)
  from probe lim have nov: "\<not> taken_for_output g md n d"
    by (simp add: taken_for_output_def)
  from body nv Some cm
  have s': "s' = s\<lparr>stack := (c, dist + 1, d + 1)
                           # rev (map (\<lambda>(formal, actual). (actual, dist + 1, d)) m) @ stack s,
                 accum := (if p n then accum s @ [(n, dist)] else accum s),
                 visited := insert n (visited s \<union> fst ` set m)\<rparr>"
    by (auto simp: dfs_body_def predicate_def Let_def)
  have "place ` set (rev (map (\<lambda>(formal, actual). (actual, dist + 1, d)) m))
      = (\<lambda>x. (snd x, d)) ` set m"
    by (force simp: place_def image_iff)
  with s' probe lim nov show ?thesis
    by (auto simp: pushes_def formals_def place_def image_Un)
next
  case None
  with body nv have pn: "plain_node g (predicate p) n dist d s = Inr s'"
    by (auto simp: dfs_body_def split: if_splits)
  from None have off: "within_limit md d \<longrightarrow> block_probe g n = None"
    by (auto simp: may_expand_within split: if_splits)
  then have fm: "(if within_limit md d then formals g n else {}) = {}"
    by (auto simp: formals_def)
  from off have pu: "pushes g md n d = (\<lambda>b. (b, d)) ` plain_children g n"
    by (auto simp: pushes_def)
  show ?thesis
  proof (cases "function_inputs g n")
    case (Some ins)
    then have nov: "\<not> taken_for_output g md n d"
      by (simp add: taken_for_output_def)
    from pn Some
    have s': "s' = s\<lparr>stack := rev (map (\<lambda>i. (i, dist + 1, d)) ins) @ stack s,
                 accum := (if p n then accum s @ [(n, dist)] else accum s),
                 visited := insert n (visited s)\<rparr>"
      by (auto simp: plain_node_def accept_def predicate_def)
    have "place ` set (rev (map (\<lambda>i. (i, dist + 1, d)) ins)) = (\<lambda>b. (b, d)) ` set ins"
      by (force simp: place_def image_iff)
    with s' Some nov fm pu show ?thesis
      by (auto simp: plain_children_def image_Un)
  next
    case noins: None
    show ?thesis
    proof (cases "is_output (g n) = Some True \<and> owner (g n) \<noteq> None")
      case True
      then obtain ow where ow: "owner (g n) = Some ow" by auto
      from True off noins have ov: "taken_for_output g md n d"
        by (simp add: taken_for_output_def)
      from pn noins True ow
      have "s' = s\<lparr>stack := (ow, dist + 1, d) # stack s, visited := insert n (visited s)\<rparr>"
        by (simp add: plain_node_def)
      with noins True ow ov fm pu show ?thesis
        by (auto simp: plain_children_def place_def)
    next
      case False
      then have nov: "\<not> taken_for_output g md n d"
        by (auto simp: taken_for_output_def)
      from pn noins False
      have "s' = s\<lparr>accum := (if p n then accum s @ [(n, dist)] else accum s),
                 visited := insert n (visited s)\<rparr>"
        by (auto simp: plain_node_def accept_def predicate_def split: option.splits bool.splits)
      moreover from noins False have "plain_children g n = {}"
        by (auto simp: plain_children_def split: option.splits)
      ultimately show ?thesis
        using nov fm pu by auto
    qed
  qed
qed

lemma search_ok_turn:
  assumes ok: "search_ok g root md p t" and st: "stack t = entry # rest"
    and body: "dfs_body g (predicate p) md entry (t\<lparr>stack := rest\<rparr>) = Inr t'"
  shows "search_ok g root md p t'"
proof -
  obtain n dist d where entry: "entry = (n, dist, d)" by (cases entry)
  from body entry have b: "dfs_body g (predicate p) md (n, dist, d) (t\<lparr>stack := rest\<rparr>) = Inr t'"
    by simp
  from st entry have nodes: "fst ` set (stack t) = insert n (fst ` set rest)"
    by simp
  from ok have
    stk: "\<forall>e \<in> set (stack t). place e \<in> within g root md"
    and acc: "\<forall>e \<in> set (accum t). \<exists>d. (fst e, d) \<in> within g root md"
    and old: "\<And>v. v \<in> visited t \<Longrightarrow> v \<notin> marked_formals g root md \<or> v = root \<Longrightarrow>
            \<exists>d. (v, d) \<in> within g root md
               \<and> fst ` pushes g md v d \<subseteq> visited t \<union> fst ` set (stack t)
               \<and> (p v \<and> \<not> taken_for_output g md v d \<longrightarrow> v \<in> fst ` set (accum t))"
    and first: "root \<in> visited t \<or> t = dfs_init root"
    unfolding search_ok_def by blast+
  from stk st entry have here: "(n, d) \<in> within g root md"
    and rest: "\<forall>e \<in> set rest. place e \<in> within g root md"
    by (simp_all add: place_def)
  show ?thesis
  proof (cases "n \<in> visited t")
    case True
    with b have t': "t' = t\<lparr>stack := rest\<rparr>" by (simp add: dfs_body_def)
    from True first have "root \<in> visited t" by (auto simp: dfs_init_def)
    moreover have "\<exists>d. (v, d) \<in> within g root md
               \<and> fst ` pushes g md v d \<subseteq> visited t \<union> fst ` set rest
               \<and> (p v \<and> \<not> taken_for_output g md v d \<longrightarrow> v \<in> fst ` set (accum t))"
      if "v \<in> visited t" "v \<notin> marked_formals g root md \<or> v = root" for v
    proof -
      from old [OF that] obtain d0 where d0: "(v, d0) \<in> within g root md"
        "fst ` pushes g md v d0 \<subseteq> visited t \<union> fst ` set (stack t)"
        "p v \<and> \<not> taken_for_output g md v d0 \<longrightarrow> v \<in> fst ` set (accum t)"
        by blast
      from d0(2) nodes True have "fst ` pushes g md v d0 \<subseteq> visited t \<union> fst ` set rest"
        by auto
      with d0(1,3) show ?thesis by blast
    qed
    ultimately show ?thesis
      unfolding search_ok_def t' using rest acc by auto
  next
    case False
    then have nv: "n \<notin> visited (t\<lparr>stack := rest\<rparr>)" by simp
    from dfs_body_step [OF nv b]
    have pl: "place ` set (stack t') = pushes g md n d \<union> place ` set rest"
      and vis: "visited t' = insert n (visited t) \<union> (if within_limit md d then formals g n else {})"
      and ac: "fst ` set (accum t') =
           fst ` set (accum t) \<union> (if p n \<and> \<not> taken_for_output g md n d then {n} else {})"
      by simp_all
    have "fst ` place ` set (stack t') = fst ` (pushes g md n d \<union> place ` set rest)"
      by (simp only: pl)
    then have sn: "fst ` set (stack t') = fst ` pushes g md n d \<union> fst ` set rest"
      by (simp add: image_Un image_image place_def)
    have stk': "\<forall>e \<in> set (stack t'). place e \<in> within g root md"
    proof
      fix e assume "e \<in> set (stack t')"
      then have "place e \<in> pushes g md n d \<union> place ` set rest"
        using pl by blast
      then show "place e \<in> within g root md"
        using here rest by (auto intro: within.follow)
    qed
    have acc': "\<forall>e \<in> set (accum t'). \<exists>d. (fst e, d) \<in> within g root md"
    proof
      fix e assume "e \<in> set (accum t')"
      then have "fst e \<in> fst ` set (accum t) \<union> {n}"
        using ac by (auto split: if_splits)
      then consider "fst e = n" | e0 where "e0 \<in> set (accum t)" "fst e0 = fst e"
        by auto
      then show "\<exists>d. (fst e, d) \<in> within g root md"
      proof cases
        case 1
        with here show ?thesis by blast
      next
        case 2
        with acc show ?thesis by metis
      qed
    qed
    from first st entry have rootn: "root \<in> visited t \<or> n = root"
      by (auto simp: dfs_init_def)
    have new: "\<exists>d. (v, d) \<in> within g root md
               \<and> fst ` pushes g md v d \<subseteq> visited t' \<union> fst ` set (stack t')
               \<and> (p v \<and> \<not> taken_for_output g md v d \<longrightarrow> v \<in> fst ` set (accum t'))"
      if v: "v \<in> visited t'" and h: "v \<notin> marked_formals g root md \<or> v = root" for v
    proof (cases "v = n")
      case True
      have "(n, d) \<in> within g root md
               \<and> fst ` pushes g md n d \<subseteq> visited t' \<union> fst ` set (stack t')
               \<and> (p n \<and> \<not> taken_for_output g md n d \<longrightarrow> n \<in> fst ` set (accum t'))"
        using here sn ac by auto
      with True show ?thesis by blast
    next
      case vn: False
      have "v \<in> visited t"
      proof (rule ccontr)
        assume nvt: "v \<notin> visited t"
        with v vis vn have "within_limit md d" and "v \<in> formals g n"
          by (auto split: if_splits)
        with here have "v \<in> marked_formals g root md"
          by (auto simp: marked_formals_def)
        with h have "v = root" by simp
        with nvt rootn vn show False by simp
      qed
      from old [OF this h] obtain d0 where
        d0: "(v, d0) \<in> within g root md"
        "fst ` pushes g md v d0 \<subseteq> visited t \<union> fst ` set (stack t)"
        "p v \<and> \<not> taken_for_output g md v d0 \<longrightarrow> v \<in> fst ` set (accum t)"
        by blast
      have "visited t \<union> fst ` set (stack t) \<subseteq> visited t' \<union> fst ` set (stack t')"
        using nodes vis sn by auto
      with d0(2) have a: "fst ` pushes g md v d0 \<subseteq> visited t' \<union> fst ` set (stack t')"
        by (rule subset_trans)
      have "fst ` set (accum t) \<subseteq> fst ` set (accum t')"
        using ac by auto
      with d0(3) have b: "p v \<and> \<not> taken_for_output g md v d0 \<longrightarrow> v \<in> fst ` set (accum t')"
        by blast
      from d0(1) a b show ?thesis by blast
    qed
    from rootn vis have root': "root \<in> visited t'" by auto
    show ?thesis
      unfolding search_ok_def
    proof (intro conjI)
      show "\<forall>e \<in> set (stack t'). place e \<in> within g root md" by (rule stk')
      show "\<forall>e \<in> set (accum t'). \<exists>d. (fst e, d) \<in> within g root md" by (rule acc')
      show "\<forall>v \<in> visited t'. v \<notin> marked_formals g root md \<or> v = root \<longrightarrow>
          (\<exists>d. (v, d) \<in> within g root md
             \<and> fst ` pushes g md v d \<subseteq> visited t' \<union> fst ` set (stack t')
             \<and> (p v \<and> \<not> taken_for_output g md v d \<longrightarrow> v \<in> fst ` set (accum t')))"
      proof (intro ballI impI)
        fix v assume "v \<in> visited t'" "v \<notin> marked_formals g root md \<or> v = root"
        then show "\<exists>d. (v, d) \<in> within g root md
             \<and> fst ` pushes g md v d \<subseteq> visited t' \<union> fst ` set (stack t')
             \<and> (p v \<and> \<not> taken_for_output g md v d \<longrightarrow> v \<in> fst ` set (accum t'))"
          by (rule new)
      qed
      show "root \<in> visited t' \<or> t' = dfs_init root" using root' by simp
    qed
  qed
qed

lemma search_ok_end:
  assumes "dfs_accum g root (predicate p) md = Some (Inr acc)"
  shows "\<exists>s. acc = accum s \<and> stack s = [] \<and> search_ok g root md p s"
proof -
  from assms obtain s where loop: "dfs_loop g (predicate p) md (dfs_init root) = Some (Inr s)"
    and acc: "acc = accum s"
    by (auto simp: dfs_accum_def split: option.splits sum.splits)
  have "search_ok g root md p s \<and> stack s = []"
  proof (rule dfs_loop_invariant [of g "predicate p" md "dfs_init root" s "search_ok g root md p", OF loop])
    show "search_ok g root md p (dfs_init root)"
      by (simp add: search_ok_def dfs_init_def place_def within.start)
  next
    fix entry rest t t'
    assume "search_ok g root md p t" "stack t = entry # rest"
      "dfs_body g (predicate p) md entry (t\<lparr>stack := rest\<rparr>) = Inr t'"
    then show "search_ok g root md p t'"
      by (rule search_ok_turn)
  qed
  with acc show ?thesis by blast
qed

lemma found_within_subset: "e \<in> found_within g root md \<Longrightarrow> e \<in> within g root md"
  by (induction rule: found_within.induct) (auto intro: within.intros)

lemma same_side_pushes:
  assumes "same_side g root md" and "(v, d) \<in> within g root md" and "(v, d') \<in> within g root md"
  shows "fst ` pushes g md v d = fst ` pushes g md v d'"
    and "taken_for_output g md v d = taken_for_output g md v d'"
proof -
  have side: "block_probe g v \<noteq> None \<Longrightarrow> within_limit md d = within_limit md d'"
    using assms unfolding same_side_def by blast
  show "fst ` pushes g md v d = fst ` pushes g md v d'"
  proof (cases "block_probe g v")
    case None
    then show ?thesis by (simp add: pushes_def image_image)
  next
    case (Some cm)
    with side have "within_limit md d = within_limit md d'" by simp
    then show ?thesis
      by (cases cm) (simp add: pushes_def Some image_image)
  qed
  show "taken_for_output g md v d = taken_for_output g md v d'"
    using side by (cases "block_probe g v") (auto simp: taken_for_output_def)
qed

lemma search_ok_found:
  assumes side: "same_side g root md"
    and ok: "search_ok g root md p s" and empty: "stack s = []"
    and m: "e \<in> found_within g root md"
  shows "fst e \<in> visited s \<and> (fst e \<notin> marked_formals g root md \<or> fst e = root)"
  using m
proof (induction rule: found_within.induct)
  case start
  from ok empty show ?case
    by (auto simp: search_ok_def dfs_init_def)
next
  case (follow a d e)
  from follow.IH ok obtain d0 where d0: "(a, d0) \<in> within g root md"
    and sub: "fst ` pushes g md a d0 \<subseteq> visited s \<union> fst ` set (stack s)"
    unfolding search_ok_def by force
  from follow.hyps(1) have "(a, d) \<in> within g root md"
    by (rule found_within_subset)
  from same_side_pushes(1) [OF side this d0] follow.hyps(2)
  have "fst e \<in> fst ` pushes g md a d0" by auto
  with sub empty follow.hyps(3) show ?case by auto
qed

lemma dfs_accum_complete:
  assumes side: "same_side g root md"
    and run: "dfs_accum g root (predicate p) md = Some (Inr acc)"
    and m: "(n, d) \<in> found_within g root md" and pn: "p n"
    and nov: "\<not> taken_for_output g md n d"
  shows "n \<in> fst ` set acc"
proof -
  from search_ok_end [OF run] obtain s where acc: "acc = accum s" and empty: "stack s = []"
    and ok: "search_ok g root md p s" by blast
  from search_ok_found [OF side ok empty m]
  have v: "n \<in> visited s" and h: "n \<notin> marked_formals g root md \<or> n = root" by simp_all
  from ok have "\<forall>v \<in> visited s. v \<notin> marked_formals g root md \<or> v = root \<longrightarrow>
      (\<exists>d. (v, d) \<in> within g root md
         \<and> fst ` pushes g md v d \<subseteq> visited s \<union> fst ` set (stack s)
         \<and> (p v \<and> \<not> taken_for_output g md v d \<longrightarrow> v \<in> fst ` set (accum s)))"
    unfolding search_ok_def by (elim conjE)
  then have "n \<notin> marked_formals g root md \<or> n = root \<longrightarrow>
      (\<exists>d. (n, d) \<in> within g root md
         \<and> fst ` pushes g md n d \<subseteq> visited s \<union> fst ` set (stack s)
         \<and> (p n \<and> \<not> taken_for_output g md n d \<longrightarrow> n \<in> fst ` set (accum s)))"
    using v by (rule bspec)
  then have "\<exists>d. (n, d) \<in> within g root md
         \<and> fst ` pushes g md n d \<subseteq> visited s \<union> fst ` set (stack s)
         \<and> (p n \<and> \<not> taken_for_output g md n d \<longrightarrow> n \<in> fst ` set (accum s))"
    using h by (rule mp)
  then obtain d0 where d0: "(n, d0) \<in> within g root md"
    and a: "p n \<and> \<not> taken_for_output g md n d0 \<longrightarrow> n \<in> fst ` set (accum s)"
    by (elim exE conjE)
  from m have "(n, d) \<in> within g root md" by (rule found_within_subset)
  from same_side_pushes(2) [OF side this d0] nov have "\<not> taken_for_output g md n d0" by simp
  with a pn acc show ?thesis by simp
qed

lemma dfs_accum_within:
  assumes "dfs_accum g root (predicate p) md = Some (Inr acc)" and "e \<in> set acc"
  shows "\<exists>d. (fst e, d) \<in> within g root md"
proof -
  from search_ok_end [OF assms(1)] obtain s where "acc = accum s" "search_ok g root md p s"
    by blast
  with assms(2) show ?thesis
    unfolding search_ok_def by blast
qed

lemma reach_in_reachable: "reach_in g root k n \<Longrightarrow> n \<in> reachable g root"
  by (induction rule: reach_in.induct) (auto intro: reachable.intros)

text \<open>
  Claim C1, amended. From the root finitely many nodes can be reached and the visitor is
  a predicate. Then \<^verbatim>\<open>depth_first_search\<close> returns a list; every node of the list
  satisfies the predicate, can be reached from the root, and is reached within the depth
  limit: along a chain from the root on which a block is entered only at a block depth
  within \<^verbatim>\<open>max_depth\<close>. If no block is reached both within the limit and beyond it,
  the list holds every node that satisfies the predicate and is reached within the depth
  limit along a chain that, after the root, passes through no formal input marked by an
  expanded block, unless the search replaces the node by its owner as an output
  variable.
\<close>

theorem C1_sound_and_complete:
  assumes "finite (reachable g root)"
  shows "\<exists>xs. depth_first_search g root (predicate p) max_depth sort_by_distance = Some (Inr xs)
           \<and> (\<forall>n \<in> set xs. p n \<and> n \<in> reachable g root
                 \<and> (\<exists>d. (n, d) \<in> within g root max_depth))
           \<and> (same_side g root max_depth \<longrightarrow>
                (\<forall>e \<in> found_within g root max_depth.
                   p (fst e) \<and> \<not> taken_for_output g max_depth (fst e) (snd e) \<longrightarrow>
                   fst e \<in> set xs))"
proof -
  from depth_first_search_terminates [OF assms] obtain r where
    r: "depth_first_search g root (predicate p) max_depth sort_by_distance = Some r" by blast
  from depth_first_search_predicate [OF r] obtain xs where "r = Inr xs" by blast
  with r have run: "depth_first_search g root (predicate p) max_depth sort_by_distance
      = Some (Inr xs)" by simp
  from depth_first_search_set [OF run] obtain acc where
    acc: "dfs_accum g root (predicate p) max_depth = Some (Inr acc)"
    and xs: "set xs = fst ` set acc" by blast
  have sound: "p n \<and> n \<in> reachable g root \<and> (\<exists>d. (n, d) \<in> within g root max_depth)"
    if "n \<in> set xs" for n
  proof -
    from depth_first_search_accepted [OF run that] have "p n"
      by (simp add: predicate_def)
    moreover from that xs obtain e where e: "e \<in> set acc" "n = fst e" by auto
    with dfs_accum_distances [OF acc] have "reach_in g root (snd e) n" by simp
    then have "n \<in> reachable g root" by (rule reach_in_reachable)
    moreover from dfs_accum_within [OF acc e(1)] e(2)
    have "\<exists>d. (n, d) \<in> within g root max_depth" by simp
    ultimately show ?thesis by simp
  qed
  have complete: "fst e \<in> set xs"
    if "same_side g root max_depth"
      and "e \<in> found_within g root max_depth" and "p (fst e)"
      and "\<not> taken_for_output g max_depth (fst e) (snd e)" for e
    using dfs_accum_complete [OF that(1) acc, of "fst e" "snd e"] that(2,3,4) xs by simp
  have s: "\<forall>n \<in> set xs. p n \<and> n \<in> reachable g root
                 \<and> (\<exists>d. (n, d) \<in> within g root max_depth)"
    using sound by blast
  have c: "same_side g root max_depth \<longrightarrow>
                (\<forall>e \<in> found_within g root max_depth.
                   p (fst e) \<and> \<not> taken_for_output g max_depth (fst e) (snd e) \<longrightarrow>
                   fst e \<in> set xs)"
    using complete by blast
  show ?thesis
  proof (rule exI [of _ xs], intro conjI)
    show "depth_first_search g root (predicate p) max_depth sort_by_distance = Some (Inr xs)"
      by (rule run)
  qed (rule s, rule c)
qed

lemma sum_graph_no_block: "block_probe sum_graph n = None"
  by (simp add: block_probe_def sum_graph_def graph_of_def bare_def)

lemma sum_graph_finite: "finite (reachable sum_graph 0)"
proof -
  have "reachable sum_graph 0 \<subseteq> {0, 1, 2, 3, 4, 5}"
    by (rule reachable_subset)
      (simp_all add: successors_def function_inputs_def sum_graph_no_block,
        simp_all add: sum_graph_def graph_of_def bare_def)
  then show ?thesis
    by (rule finite_subset) simp
qed

lemma block_graph_finite: "finite (reachable block_graph 0)"
proof -
  have "reachable block_graph 0 \<subseteq> {0, 1, 2, 3}"
    by (rule reachable_subset)
      (simp_all add: successors_def function_inputs_def block_probe_def block_graph_def
        graph_of_def bare_def)
  then show ?thesis
    by (rule finite_subset) simp
qed

lemma within_subset:
  assumes "(root, 0) \<in> U" and "\<And>a d. (a, d) \<in> U \<Longrightarrow> pushes g max_depth a d \<subseteq> U"
  shows "within g root max_depth \<subseteq> U"
proof
  fix e assume "e \<in> within g root max_depth"
  then show "e \<in> U"
  proof (induction rule: within.induct)
    case start
    show ?case by (rule assms(1))
  next
    case (follow a d e)
    from assms(2) [OF follow.IH] follow.hyps(2) show ?case by blast
  qed
qed

text \<open>No block is on both sides of the limit when there is no limit, and when the graph
  has no block.\<close>

lemma same_side_no_limit: "same_side g root None"
  by (simp add: same_side_def within_limit_def)

lemma same_side_no_block: "(\<And>n. block_probe g n = None) \<Longrightarrow> same_side g root max_depth"
  by (simp add: same_side_def)

lemma block_graph_within_0: "within block_graph 0 (Some 0) \<subseteq> {(0, 0), (1, 0)}"
proof (rule within_subset)
  show "(0, 0) \<in> {(0, 0), (1 :: node, 0 :: nat)}" by simp
next
  fix a :: node and d :: nat
  assume "(a, d) \<in> {(0, 0), (1, 0)}"
  then consider "a = 0" "d = 0" | "a = 1" "d = 0" by auto
  then show "pushes block_graph (Some 0) a d \<subseteq> {(0, 0), (1, 0)}"
    by cases
      (simp_all add: pushes_def within_limit_def plain_children_def function_inputs_def
        block_graph_def graph_of_def bare_def)
qed

lemma block_graph_same_side_0: "same_side block_graph 0 (Some 0)"
  unfolding same_side_def
proof (intro allI impI)
  fix b d d'
  assume "(b, d) \<in> within block_graph 0 (Some 0) \<and> (b, d') \<in> within block_graph 0 (Some 0)
        \<and> block_probe block_graph b \<noteq> None"
  with block_graph_within_0 have "d = 0" "d' = 0" by auto
  then show "within_limit (Some 0) d = within_limit (Some 0) d'" by simp
qed

text \<open>
  Claim C1, as stated, fails, in three ways; the visitor is always true and each node
  named is reached within the depth limit. In the sum of a product the variable 1, the
  output of \<open>Times\<close>, is an input of the root \<open>Plus\<close>; the search replaces an
  output variable by its owner (lines 52 to 57) and the list returned does not hold it.
  In the block graph the placeholder 3 is the input of the composite root 2; expanding
  the block 0 marks it as visited (line 38) and it is never handled. In the graph with
  a shared block and \<^verbatim>\<open>max_depth\<close> 1, the block 2 is first met at depth 1 inside
  the block 1, where it is not expanded, and is marked; when it is met again at depth 0
  it is skipped, and its composite root 4 at depth 1 is never reached.
\<close>

theorem C1_counterexample:
  "depth_first_search sum_graph 0 (predicate (\<lambda>_. True)) None False = Some (Inr [0, 2, 3, 5])
   \<and> 1 \<in> reachable sum_graph 0
   \<and> 1 \<notin> set [0, 2, 3, 5 :: nat]
   \<and> (1, 0) \<in> found_within sum_graph 0 None
   \<and> same_side sum_graph 0 None
   \<and> depth_first_search block_graph 0 (predicate (\<lambda>_. True)) None False = Some (Inr [0, 2, 1])
   \<and> (3, 1) \<in> within block_graph 0 None
   \<and> 3 \<notin> set [0, 2, 1 :: nat]
   \<and> \<not> taken_for_output block_graph None 3 1
   \<and> same_side block_graph 0 None
   \<and> depth_first_search shared_graph 0 (predicate (\<lambda>_. True)) (Some 1) False
       = Some (Inr [0, 1, 3, 2])
   \<and> (4, 1) \<in> found_within shared_graph 0 (Some 1)
   \<and> 4 \<notin> set [0, 1, 3, 2 :: nat]
   \<and> \<not> taken_for_output shared_graph (Some 1) 4 1"
proof -
  have a1: "depth_first_search sum_graph 0 (predicate (\<lambda>_. True)) None False
      = Some (Inr [0, 2, 3, 5])"
    by code_simp
  have "1 \<in> successors sum_graph 0"
    by (simp add: successors_def function_inputs_def sum_graph_def graph_of_def bare_def)
  then have a2: "1 \<in> reachable sum_graph 0"
    by (rule reachable.step [OF reachable.root])
  have "(1, 0) \<in> pushes sum_graph None 0 0"
    by (simp add: pushes_def sum_graph_no_block plain_children_def function_inputs_def)
      (simp add: sum_graph_def graph_of_def bare_def)
  with found_within.start have a3: "(1, 0) \<in> found_within sum_graph 0 None"
    by (rule found_within.follow)
      (simp add: marked_formals_def formals_def sum_graph_no_block)
  have b1: "depth_first_search block_graph 0 (predicate (\<lambda>_. True)) None False
      = Some (Inr [0, 2, 1])"
    by code_simp
  have "(2, 1) \<in> pushes block_graph None 0 0"
    by (simp add: pushes_def within_limit_def block_probe_def block_graph_def graph_of_def
        bare_def)
  with within.start have "(2, 1) \<in> within block_graph 0 None"
    by (rule within.follow)
  moreover have "(3, 1) \<in> pushes block_graph None 2 1"
    by (simp add: pushes_def within_limit_def block_probe_def plain_children_def
        function_inputs_def block_graph_def graph_of_def bare_def)
  ultimately have b2: "(3, 1) \<in> within block_graph 0 None"
    by (rule within.follow)
  have b3: "\<not> taken_for_output block_graph None 3 1"
    by (simp add: taken_for_output_def block_graph_def graph_of_def bare_def)
  have c1: "depth_first_search shared_graph 0 (predicate (\<lambda>_. True)) (Some 1) False
      = Some (Inr [0, 1, 3, 2])"
    by code_simp
  have nf: "marked_formals shared_graph 0 (Some 1) = {}"
    by (auto simp: marked_formals_def formals_def block_probe_def shared_graph_def graph_of_def
        bare_def split: if_splits)
  have "(2, 0) \<in> pushes shared_graph (Some 1) 0 0"
    by (simp add: pushes_def within_limit_def block_probe_def plain_children_def
        function_inputs_def shared_graph_def graph_of_def bare_def)
  with found_within.start have "(2, 0) \<in> found_within shared_graph 0 (Some 1)"
    by (rule found_within.follow) (simp add: nf)
  moreover have "(4, 1) \<in> pushes shared_graph (Some 1) 2 0"
    by (simp add: pushes_def within_limit_def block_probe_def shared_graph_def graph_of_def
        bare_def)
  ultimately have c2: "(4, 1) \<in> found_within shared_graph 0 (Some 1)"
    by (rule found_within.follow) (simp add: nf)
  have c3: "\<not> taken_for_output shared_graph (Some 1) 4 1"
    by (simp add: taken_for_output_def function_inputs_def shared_graph_def graph_of_def bare_def)
  from a1 a2 a3 b1 b2 b3 c1 c2 c3 same_side_no_limit [of sum_graph 0]
    same_side_no_limit [of block_graph 0]
  show ?thesis by simp
qed

text \<open>
  The block graph with the limit 0, where the block 0 is not expanded and the list is
  \<open>[0, 1]\<close>, and without a limit, where the composite root 2 is found.
\<close>

theorem C1_witness:
  "finite (reachable block_graph 0)
   \<and> same_side block_graph 0 (Some 0)
   \<and> (1, 0) \<in> found_within block_graph 0 (Some 0)
   \<and> \<not> taken_for_output block_graph (Some 0) 1 0
   \<and> (\<exists>xs. depth_first_search block_graph 0 (predicate (\<lambda>_. True)) (Some 0) False
            = Some (Inr xs) \<and> 1 \<in> set xs)
   \<and> depth_first_search block_graph 0 (predicate (\<lambda>_. True)) (Some 0) False
       = Some (Inr [0, 1])
   \<and> same_side block_graph 0 None
   \<and> (2, 1) \<in> found_within block_graph 0 None
   \<and> \<not> taken_for_output block_graph None 2 1
   \<and> (\<exists>xs. depth_first_search block_graph 0 (predicate (\<lambda>_. True)) None False
            = Some (Inr xs) \<and> 2 \<in> set xs)
   \<and> depth_first_search block_graph 0 (predicate (\<lambda>_. True)) None False
       = Some (Inr [0, 2, 1])"
proof -
  have "(1, 0) \<in> pushes block_graph (Some 0) 0 0"
    by (simp add: pushes_def within_limit_def plain_children_def function_inputs_def
        block_graph_def graph_of_def bare_def)
  with found_within.start have one: "(1, 0) \<in> found_within block_graph 0 (Some 0)"
    by (rule found_within.follow) (simp add: marked_formals_def within_limit_def)
  have nov1: "\<not> taken_for_output block_graph (Some 0) 1 0"
    by (simp add: taken_for_output_def block_graph_def graph_of_def bare_def)
  have run0: "depth_first_search block_graph 0 (predicate (\<lambda>_. True)) (Some 0) False
      = Some (Inr [0, 1])"
    by code_simp
  have "(2, 1) \<in> pushes block_graph None 0 0"
    by (simp add: pushes_def within_limit_def block_probe_def block_graph_def graph_of_def
        bare_def)
  with found_within.start have two: "(2, 1) \<in> found_within block_graph 0 None"
    by (rule found_within.follow)
      (auto simp: marked_formals_def formals_def block_probe_def block_graph_def graph_of_def
        bare_def split: if_splits)
  have nov2: "\<not> taken_for_output block_graph None 2 1"
    by (simp add: taken_for_output_def function_inputs_def block_graph_def graph_of_def bare_def)
  have run: "depth_first_search block_graph 0 (predicate (\<lambda>_. True)) None False
      = Some (Inr [0, 2, 1])"
    by code_simp
  from C1_sound_and_complete [OF block_graph_finite, of "\<lambda>_. True" "Some 0" False]
  obtain xs where xs: "depth_first_search block_graph 0 (predicate (\<lambda>_. True)) (Some 0) False
            = Some (Inr xs)"
    and c: "same_side block_graph 0 (Some 0) \<longrightarrow>
        (\<forall>e \<in> found_within block_graph 0 (Some 0).
           True \<and> \<not> taken_for_output block_graph (Some 0) (fst e) (snd e) \<longrightarrow> fst e \<in> set xs)"
    by blast
  from c block_graph_same_side_0 one nov1 have "1 \<in> set xs" by force
  with xs have e0: "\<exists>xs. depth_first_search block_graph 0 (predicate (\<lambda>_. True)) (Some 0) False
            = Some (Inr xs) \<and> 1 \<in> set xs"
    by blast
  from C1_sound_and_complete [OF block_graph_finite, of "\<lambda>_. True" None False]
  obtain ys where ys: "depth_first_search block_graph 0 (predicate (\<lambda>_. True)) None False
            = Some (Inr ys)"
    and c': "same_side block_graph 0 None \<longrightarrow>
        (\<forall>e \<in> found_within block_graph 0 None.
           True \<and> \<not> taken_for_output block_graph None (fst e) (snd e) \<longrightarrow> fst e \<in> set ys)"
    by blast
  from c' same_side_no_limit [of block_graph 0] two nov2 have "2 \<in> set ys" by force
  with ys have e1: "\<exists>xs. depth_first_search block_graph 0 (predicate (\<lambda>_. True)) None False
            = Some (Inr xs) \<and> 2 \<in> set xs"
    by blast
  from block_graph_finite block_graph_same_side_0 one nov1 e0 run0
    same_side_no_limit [of block_graph 0] two nov2 e1 run
  show ?thesis by blast
qed


section \<open>The export walks as the search does\<close>









end
